theory Spec2Isabelle
  imports Main
begin

section \<open>Tiles, points and tetrominoes\<close>

text \<open>
  A shallow embedding of the Tetris-2048 engine (\<^verbatim>\<open>tile.py\<close>, \<^verbatim>\<open>point.py\<close>,
  \<^verbatim>\<open>tetromino.py\<close>, \<^verbatim>\<open>game_grid.py\<close>).

  Conventions.
  \<^item> Python integers are \<open>int\<close>; loop counters that the source keeps non-negative are \<open>nat\<close>.
  \<^item> A Tile object is a record with its \<open>number\<close>; its colours are a function of the number
    and play no role in the rules. Every cell of a matrix holds its own Tile object
    (the engine deep-copies tiles at lock time), so mutation of a tile in place is the
    replacement of the cell's content.
  \<^item> A numpy object matrix is a list of rows, each row a list of optional tiles. Every
    indexed read or write is checked against the lengths: out of range is Python's
    IndexError, the value \<open>None\<close> of the option monad.
  \<^item> Randomness is an explicit argument: the functions that draw random numbers take the
    entropy and map it onto the outcomes of \<^verbatim>\<open>random.choice\<close> and \<^verbatim>\<open>random.randint\<close>.
\<close>

record tile =
  number :: int

record point =
  point_x :: int
  point_y :: int

type_synonym matrix = "tile option list list"

text \<open>The numpy shape \<open>(h, w)\<close> of a matrix.\<close>

definition has_shape :: "'a list list \<Rightarrow> nat \<Rightarrow> nat \<Rightarrow> bool" where
  "has_shape m h w = (length m = h \<and> list_all (\<lambda>row. length row = w) m)"

text \<open>\<^verbatim>\<open>m[r][c]\<close> and \<^verbatim>\<open>m[r][c] = v\<close> for non-negative indices.\<close>

definition get_cell :: "'a list list \<Rightarrow> nat \<Rightarrow> nat \<Rightarrow> 'a option" where
  "get_cell m r c = (if r < length m \<and> c < length (m ! r) then Some (m ! r ! c) else None)"

definition set_cell :: "'a list list \<Rightarrow> nat \<Rightarrow> nat \<Rightarrow> 'a \<Rightarrow> 'a list list option" where
  "set_cell m r c v =
     (if r < length m \<and> c < length (m ! r) then Some (m[r := (m ! r)[c := v]]) else None)"

text \<open>\<^verbatim>\<open>np.full((h, w), None)\<close>.\<close>

definition np_full :: "nat \<Rightarrow> nat \<Rightarrow> matrix" where
  "np_full h w = replicate h (replicate w None)"

text \<open>The number of occupied cells of a matrix.\<close>

definition occupied_count :: "matrix \<Rightarrow> nat" where
  "occupied_count m = length (filter (\<lambda>t. t \<noteq> None) (concat m))"

subsection \<open>Randomness\<close>

text \<open>
  \<^verbatim>\<open>random.randint(a, b)\<close> returns an integer of \<open>[a, b]\<close> and raises ValueError when the
  range is empty; \<^verbatim>\<open>random.choice([2, 4])\<close> returns one of the two. The entropy \<open>e\<close> is
  any integer; every outcome is the image of some entropy.
\<close>

definition randint :: "int \<Rightarrow> int \<Rightarrow> int \<Rightarrow> int option" where
  "randint a b e = (if a \<le> b then Some (a + e mod (b - a + 1)) else None)"

definition choice_2_4 :: "int \<Rightarrow> int" where
  "choice_2_4 e = (if e mod 2 = 0 then 2 else 4)"

text \<open>\<^verbatim>\<open>Tile.__init__\<close>.\<close>

definition Tile_init :: "int \<Rightarrow> tile" where
  "Tile_init e = \<lparr>number = choice_2_4 e\<rparr>"

text \<open>\<^verbatim>\<open>Tile.merge_with\<close>: doubles the number when the two numbers are equal.\<close>

definition merge_with :: "tile \<Rightarrow> tile \<Rightarrow> tile" where
  "merge_with self other_tile =
     (if number self = number other_tile then self\<lparr>number := number self * 2\<rparr> else self)"

subsection \<open>Tetromino\<close>

record tetromino =
  tet_type :: string
  tet_matrix :: matrix
  bottom_left_cell :: point

text \<open>
  The \<open>if\<close>/\<open>elif\<close> chain of \<^verbatim>\<open>Tetromino.__init__\<close>: the size \<open>n\<close> and the list
  \<open>occupied_cells\<close>, whose pairs the constructor reads as \<open>(col_index, row_index)\<close>.
  Another type string leaves \<open>n\<close> unbound (NameError): \<open>None\<close>.
\<close>

definition shape_cells :: "string \<Rightarrow> (nat \<times> (nat \<times> nat) list) option" where
  "shape_cells ty =
     (if ty = ''I'' then Some (4, [(1,0), (1,1), (1,2), (1,3)])
      else if ty = ''O'' then Some (2, [(0,0), (1,0), (0,1), (1,1)])
      else if ty = ''Z'' then Some (3, [(0,1), (1,1), (1,2), (2,2)])
      else if ty = ''S'' then Some (3, [(1,1), (2,1), (0,2), (1,2)])
      else if ty = ''T'' then Some (3, [(0,1), (1,1), (2,1), (1,0)])
      else if ty = ''J'' then Some (3, [(0,1), (1,1), (2,1), (2,2)])
      else if ty = ''L'' then Some (3, [(0,2), (0,1), (1,1), (2,1)])
      else None)"

text \<open>
  \<^verbatim>\<open>for col_index, row_index in occupied_cells: tile_matrix[row_index][col_index] = Tile()\<close>;
  the \<open>k\<close>-th tile created draws the entropy \<open>rnd k\<close>.
\<close>

fun fill_cells :: "(nat \<times> nat) list \<Rightarrow> (nat \<Rightarrow> int) \<Rightarrow> nat \<Rightarrow> matrix \<Rightarrow> matrix option" where
  "fill_cells [] rnd k m = Some m"
| "fill_cells ((col_index, row_index) # cells) rnd k m =
     (case set_cell m row_index col_index (Some (Tile_init (rnd k))) of
        None \<Rightarrow> None
      | Some m' \<Rightarrow> fill_cells cells rnd (Suc k) m')"

text \<open>
  \<^verbatim>\<open>Tetromino.__init__\<close>. \<open>gh\<close> and \<open>gw\<close> are the class attributes
  \<^verbatim>\<open>Tetromino.grid_height\<close> and \<^verbatim>\<open>Tetromino.grid_width\<close>; the four tiles draw
  \<open>rnd 0 .. rnd 3\<close> and the start column draws \<open>rnd 4\<close>.
\<close>

definition Tetromino_init :: "int \<Rightarrow> int \<Rightarrow> (nat \<Rightarrow> int) \<Rightarrow> string \<Rightarrow> tetromino option" where
  "Tetromino_init gh gw rnd ty =
     (case shape_cells ty of
        None \<Rightarrow> None
      | Some (n, occupied_cells) \<Rightarrow>
          (case fill_cells occupied_cells rnd 0 (np_full n n) of
             None \<Rightarrow> None
           | Some m \<Rightarrow>
               (case randint 0 (gw - int n) (rnd 4) of
                  None \<Rightarrow> None
                | Some rx \<Rightarrow>
                    Some \<lparr>tet_type = ty, tet_matrix = m,
                          bottom_left_cell = \<lparr>point_x = rx, point_y = gh - 1\<rparr>\<rparr>)))"

text \<open>\<^verbatim>\<open>Tetromino.get_cell_position\<close>.\<close>

definition get_cell_position :: "tetromino \<Rightarrow> int \<Rightarrow> int \<Rightarrow> point" where
  "get_cell_position t row col =
     (let n = int (length (tet_matrix t))
      in \<lparr>point_x = point_x (bottom_left_cell t) + col,
          point_y = point_y (bottom_left_cell t) + (n - 1) - row\<rparr>)"

text \<open>
  The occupied cells of a matrix as \<open>(row, col)\<close> index pairs, in the order of the rows
  and of the columns (row 0 is the first row of the matrix).
\<close>

definition occupied_list :: "matrix \<Rightarrow> (nat \<times> nat) list" where
  "occupied_list m =
     concat (map (\<lambda>r. map (\<lambda>c. (r, c)) (filter (\<lambda>c. m ! r ! c \<noteq> None) [0..<length (m ! r)]))
                 [0..<length m])"

section \<open>The grid\<close>

record game_grid =
  grid_height :: nat
  grid_width :: nat
  tile_matrix :: matrix
  current_tetromino :: "tetromino option"
  game_over :: bool
  score :: int

text \<open>\<^verbatim>\<open>GameGrid.__init__\<close> (the drawing attributes are left out).\<close>

definition GameGrid_init :: "nat \<Rightarrow> nat \<Rightarrow> game_grid" where
  "GameGrid_init grid_h grid_w =
     \<lparr>grid_height = grid_h, grid_width = grid_w, tile_matrix = np_full grid_h grid_w,
      current_tetromino = None, game_over = False, score = 0\<rparr>"

text \<open>
  The class invariant that the constructor establishes: the matrix has the shape
  \<open>(grid_height, grid_width)\<close>. A numpy array never changes its shape.
\<close>

definition shape_ok :: "game_grid \<Rightarrow> bool" where
  "shape_ok g = has_shape (tile_matrix g) (grid_height g) (grid_width g)"

definition is_inside :: "game_grid \<Rightarrow> int \<Rightarrow> int \<Rightarrow> bool" where
  "is_inside g row col =
     (0 \<le> row \<and> row < int (grid_height g) \<and> 0 \<le> col \<and> col < int (grid_width g))"

definition is_occupied :: "game_grid \<Rightarrow> int \<Rightarrow> int \<Rightarrow> bool option" where
  "is_occupied g row col =
     (if is_inside g row col
      then map_option (\<lambda>t. t \<noteq> None) (get_cell (tile_matrix g) (nat row) (nat col))
      else Some False)"

text \<open>A \<^verbatim>\<open>for\<close> loop over a list whose body may raise.\<close>

fun for_each :: "'a list \<Rightarrow> ('a \<Rightarrow> 's \<Rightarrow> 's option) \<Rightarrow> 's \<Rightarrow> 's option" where
  "for_each [] body s = Some s"
| "for_each (x # xs) body s =
     (case body x s of None \<Rightarrow> None | Some s' \<Rightarrow> for_each xs body s')"

subsection \<open>The bottom-up merge pass\<close>

text \<open>
  The \<^verbatim>\<open>while row < self.grid_height - 1\<close> loop of \<^verbatim>\<open>chain_bottom_up_merge\<close> for one
  column; the state is the grid and the flag \<open>merged\<close>. \<^verbatim>\<open>current.merge_with(above)\<close>
  mutates the tile of cell \<open>(row, col)\<close>, which is the write of the merged tile to that cell.
\<close>

function merge_column :: "nat \<Rightarrow> nat \<Rightarrow> game_grid \<Rightarrow> bool \<Rightarrow> (game_grid \<times> bool) option" where
  "merge_column col row g merged =
     (if row < grid_height g - 1 then
        (case get_cell (tile_matrix g) row col of
           None \<Rightarrow> None
         | Some current \<Rightarrow>
            (case get_cell (tile_matrix g) (row + 1) col of
               None \<Rightarrow> None
             | Some upper \<Rightarrow>
                (if current \<noteq> None \<and> upper \<noteq> None \<and> number (the current) = number (the upper)
                 then
                   (case set_cell (tile_matrix g) row col
                           (Some (merge_with (the current) (the upper))) of
                      None \<Rightarrow> None
                    | Some m1 \<Rightarrow>
                       (case set_cell m1 (row + 1) col None of
                          None \<Rightarrow> None
                        | Some m2 \<Rightarrow>
                            merge_column col (row + 1 + 1)
                              (g\<lparr>tile_matrix := m2,
                                 score := score g + number (merge_with (the current) (the upper))\<rparr>)
                              True))
                 else merge_column col (row + 1) g merged)))
      else Some (g, merged))"
  by pat_completeness auto
termination
  by (relation "measure (\<lambda>(col, row, g, merged). grid_height g - row)") auto

declare merge_column.simps [simp del]

definition chain_bottom_up_merge :: "game_grid \<Rightarrow> nat list \<Rightarrow> (game_grid \<times> bool) option" where
  "chain_bottom_up_merge g columns =
     for_each columns (\<lambda>col (g, merged). merge_column col 0 g merged) (g, False)"

subsection \<open>Clearing full rows\<close>

text \<open>\<^verbatim>\<open>m[r]\<close> and the numpy row assignment \<^verbatim>\<open>m[r] = row\<close>, which copies a row of the same length.\<close>

definition get_row :: "'a list list \<Rightarrow> nat \<Rightarrow> 'a list option" where
  "get_row m r = (if r < length m then Some (m ! r) else None)"

definition set_row :: "'a list list \<Rightarrow> nat \<Rightarrow> 'a list \<Rightarrow> 'a list list option" where
  "set_row m r row =
     (if r < length m \<and> length row = length (m ! r) then Some (m[r := row]) else None)"

text \<open>\<^verbatim>\<open>GameGrid.shift_down_above_row\<close>.\<close>

definition shift_row :: "nat \<Rightarrow> matrix \<Rightarrow> matrix option" where
  "shift_row r m = (case get_row m (r + 1) of None \<Rightarrow> None | Some upper \<Rightarrow> set_row m r upper)"

definition shift_down_above_row :: "game_grid \<Rightarrow> nat \<Rightarrow> game_grid option" where
  "shift_down_above_row g row_index =
     (case for_each [row_index..<grid_height g - 1] shift_row (tile_matrix g) of
        None \<Rightarrow> None
      | Some m \<Rightarrow>
          (case set_row m (grid_height g - 1) (replicate (grid_width g) None) of
             None \<Rightarrow> None
           | Some m' \<Rightarrow> Some (g\<lparr>tile_matrix := m'\<rparr>)))"

text \<open>\<^verbatim>\<open>for tile in self.tile_matrix[row]: if tile: cleared_score += tile.number\<close>.\<close>

definition row_score :: "tile option list \<Rightarrow> int" where
  "row_score tiles = sum_list (map (\<lambda>t. case t of None \<Rightarrow> 0 | Some ti \<Rightarrow> number ti) tiles)"

text \<open>
  The \<^verbatim>\<open>while row < self.grid_height\<close> loop of \<^verbatim>\<open>clear_full_rows_return_columns\<close>. The
  loop does not advance on a full row, so it need not end: the outer \<open>None\<close> is a run that
  never returns, \<open>Some None\<close> is IndexError, \<open>Some (Some s)\<close> is the state at the exit.
\<close>

partial_function (option) clear_rows_loop ::
  "nat \<Rightarrow> nat set \<Rightarrow> int \<Rightarrow> game_grid \<Rightarrow> (game_grid \<times> nat set \<times> int) option option" where
  "clear_rows_loop row cleared_cols cleared_score g =
     (if row < grid_height g then
        (case get_row (tile_matrix g) row of
           None \<Rightarrow> Some None
         | Some tiles \<Rightarrow>
            (if None \<notin> set tiles then
               (case shift_down_above_row g row of
                  None \<Rightarrow> Some None
                | Some g' \<Rightarrow>
                    clear_rows_loop row (cleared_cols \<union> set [0..<grid_width g])
                      (cleared_score + row_score tiles) g')
             else clear_rows_loop (row + 1) cleared_cols cleared_score g))
      else Some (Some (g, cleared_cols, cleared_score)))"

declare clear_rows_loop.simps [code]

definition clear_full_rows_return_columns :: "game_grid \<Rightarrow> (game_grid \<times> nat set) option option" where
  "clear_full_rows_return_columns g =
     (case clear_rows_loop 0 {} 0 g of
        None \<Rightarrow> None
      | Some None \<Rightarrow> Some None
      | Some (Some (g', cleared_cols, cleared_score)) \<Rightarrow>
          Some (Some (g'\<lparr>score := score g' + cleared_score\<rparr>, cleared_cols)))"

subsection \<open>Gravity: the fall of the disconnected tiles\<close>

text \<open>The first loop of \<^verbatim>\<open>fall_disconnected_tiles\<close>: the tiles of the bottom row start the search.\<close>

definition seed_bottom ::
  "game_grid \<Rightarrow> nat \<Rightarrow> bool list list \<times> (int \<times> int) list \<Rightarrow>
     (bool list list \<times> (int \<times> int) list) option" where
  "seed_bottom g col s =
     (case s of (visited, queue) \<Rightarrow>
        (case get_cell (tile_matrix g) 0 col of
           None \<Rightarrow> None
         | Some t \<Rightarrow>
             (if t \<noteq> None then
                (case set_cell visited 0 col True of
                   None \<Rightarrow> None
                 | Some visited' \<Rightarrow> Some (visited', queue @ [(0, int col)]))
              else Some s)))"

text \<open>
  The body of the loop over the four neighbours: \<^verbatim>\<open>if self.is_inside(nr, nc) and not
  visited[nr][nc]: if self.tile_matrix[nr][nc] is not None: ...\<close>.
\<close>

definition visit_neighbour ::
  "game_grid \<Rightarrow> int \<times> int \<Rightarrow> bool list list \<times> (int \<times> int) list \<Rightarrow>
     (bool list list \<times> (int \<times> int) list) option" where
  "visit_neighbour g p s =
     (case (p, s) of ((nr, nc), (visited, queue)) \<Rightarrow>
        (if is_inside g nr nc then
           (case get_cell visited (nat nr) (nat nc) of
              None \<Rightarrow> None
            | Some v \<Rightarrow>
                (if \<not> v then
                   (case get_cell (tile_matrix g) (nat nr) (nat nc) of
                      None \<Rightarrow> None
                    | Some t \<Rightarrow>
                        (if t \<noteq> None then
                           (case set_cell visited (nat nr) (nat nc) True of
                              None \<Rightarrow> None
                            | Some visited' \<Rightarrow> Some (visited', queue @ [(nr, nc)]))
                         else Some s))
                 else Some s))
         else Some s))"

definition neighbours :: "int \<Rightarrow> int \<Rightarrow> (int \<times> int) list" where
  "neighbours r c = map (\<lambda>(dr, dc). (r + dr, c + dc)) [(-1, 0), (1, 0), (0, -1), (0, 1)]"

definition unvisited :: "bool list list \<Rightarrow> nat" where
  "unvisited visited = length (filter (\<lambda>v. \<not> v) (concat visited))"

lemma filter_update_count:
  "c < length xs \<Longrightarrow>
   length (filter P (xs[c := v])) + (if P (xs ! c) then 1 else 0) =
   length (filter P xs) + (if P v then 1 else 0)"
proof (induction xs arbitrary: c)
  case Nil
  then show ?case by simp
next
  case (Cons x xs)
  show ?case
  proof (cases c)
    case 0
    then show ?thesis by simp
  next
    case (Suc c')
    with Cons.prems Cons.IH [of c'] show ?thesis by (simp split: if_splits)
  qed
qed

lemma concat_filter_update_count:
  "r < length m \<Longrightarrow> c < length (m ! r) \<Longrightarrow>
   length (filter P (concat (m[r := (m ! r)[c := v]]))) + (if P (m ! r ! c) then 1 else 0) =
   length (filter P (concat m)) + (if P v then 1 else 0)"
proof (induction m arbitrary: r)
  case Nil
  then show ?case by simp
next
  case (Cons row m)
  show ?case
  proof (cases r)
    case 0
    with Cons.prems filter_update_count [of c row P v] show ?thesis by simp
  next
    case (Suc r')
    with Cons.prems Cons.IH [of r'] show ?thesis by simp
  qed
qed

lemma visit_neighbour_measure:
  assumes "visit_neighbour g p (visited, queue) = Some (visited', queue')"
  shows "2 * unvisited visited' + length queue' \<le> 2 * unvisited visited + length queue"
proof -
  obtain nr nc where p: "p = (nr, nc)" by (cases p)
  show ?thesis
  proof (cases "(visited', queue') = (visited, queue)")
    case True
    then show ?thesis by simp
  next
    case False
    with assms p have ins: "nat nr < length visited" "nat nc < length (visited ! nat nr)"
      and v: "\<not> visited ! nat nr ! nat nc"
      and upd: "visited' = visited[nat nr := (visited ! nat nr)[nat nc := True]]"
      and q: "queue' = queue @ [(nr, nc)]"
      by (auto simp: visit_neighbour_def get_cell_def set_cell_def
               split: if_splits option.splits)
    from concat_filter_update_count [OF ins, of "\<lambda>v. \<not> v" True] v upd
    have "unvisited visited' + 1 = unvisited visited"
      by (simp add: unvisited_def)
    with q show ?thesis by simp
  qed
qed

lemma for_each_visit_measure:
  "for_each ps (visit_neighbour g) s = Some s' \<Longrightarrow>
   2 * unvisited (fst s') + length (snd s') \<le> 2 * unvisited (fst s) + length (snd s)"
proof (induction ps arbitrary: s)
  case Nil
  then show ?case by simp
next
  case (Cons p ps)
  from Cons.prems obtain s1 where s1: "visit_neighbour g p s = Some s1"
    and rest: "for_each ps (visit_neighbour g) s1 = Some s'"
    by (auto split: option.splits)
  from visit_neighbour_measure [of g p "fst s" "snd s" "fst s1" "snd s1"] s1
  have "2 * unvisited (fst s1) + length (snd s1) \<le> 2 * unvisited (fst s) + length (snd s)"
    by simp
  with Cons.IH [OF rest] show ?case by linarith
qed

text \<open>The breadth-first search \<^verbatim>\<open>while queue: r, c = queue.popleft(); ...\<close>.\<close>

function bfs :: "game_grid \<Rightarrow> bool list list \<Rightarrow> (int \<times> int) list \<Rightarrow> bool list list option" where
  "bfs g visited [] = Some visited"
| "bfs g visited ((r, c) # queue) =
     (case for_each (neighbours r c) (visit_neighbour g) (visited, queue) of
        None \<Rightarrow> None
      | Some (visited', queue') \<Rightarrow> bfs g visited' queue')"
  by pat_completeness auto
termination
proof (relation "measure (\<lambda>(g, visited, queue). 2 * unvisited visited + length queue)")
  show "wf (measure (\<lambda>(g, visited, queue). 2 * unvisited visited + length queue))"
    by simp
next
  fix g :: game_grid and visited r c queue x2 visited' queue'
  assume "for_each (neighbours r c) (visit_neighbour g) (visited, queue) = Some x2"
    and "(visited', queue') = x2"
  then have "for_each (neighbours r c) (visit_neighbour g) (visited, queue) = Some (visited', queue')"
    by simp
  from for_each_visit_measure [OF this]
  show "((g, visited', queue'), (g, visited, (r, c) # queue))
        \<in> measure (\<lambda>(g, visited, queue). 2 * unvisited visited + length queue)"
    by simp
qed

text \<open>\<^verbatim>\<open>while dest > 0 and self.tile_matrix[dest-1][col] is None: dest -= 1\<close>.\<close>

fun find_dest :: "matrix \<Rightarrow> nat \<Rightarrow> nat \<Rightarrow> nat option" where
  "find_dest m col 0 = Some 0"
| "find_dest m col (Suc d) =
     (case get_cell m d col of
        None \<Rightarrow> None
      | Some t \<Rightarrow> (if t = None then find_dest m col d else Some (Suc d)))"

text \<open>The body of the two nested loops that let the unsupported tiles fall.\<close>

definition fall_cell :: "bool list list \<Rightarrow> nat \<Rightarrow> nat \<Rightarrow> matrix \<Rightarrow> matrix option" where
  "fall_cell visited col row m =
     (case get_cell m row col of
        None \<Rightarrow> None
      | Some t \<Rightarrow>
          (if t \<noteq> None then
             (case get_cell visited row col of
                None \<Rightarrow> None
              | Some v \<Rightarrow>
                  (if \<not> v then
                     (case find_dest m col row of
                        None \<Rightarrow> None
                      | Some dest \<Rightarrow>
                          (if dest \<noteq> row then
                             (case set_cell m dest col t of
                                None \<Rightarrow> None
                              | Some m1 \<Rightarrow> set_cell m1 row col None)
                           else Some m))
                   else Some m))
           else Some m))"

text \<open>
  \<^verbatim>\<open>GameGrid.fall_disconnected_tiles\<close>. \<^verbatim>\<open>range(self.grid_height - 2, -1, -1)\<close> is the
  rows \<open>grid_height - 2\<close> down to \<open>0\<close>.
\<close>

definition fall_disconnected_tiles :: "game_grid \<Rightarrow> game_grid option" where
  "fall_disconnected_tiles g =
     (case for_each [0..<grid_width g] (seed_bottom g)
             (replicate (grid_height g) (replicate (grid_width g) False), []) of
        None \<Rightarrow> None
      | Some (visited0, queue) \<Rightarrow>
          (case bfs g visited0 queue of
             None \<Rightarrow> None
           | Some visited \<Rightarrow>
               (case for_each [0..<grid_width g]
                       (\<lambda>col. for_each (rev [0..<grid_height g - 1]) (fall_cell visited col))
                       (tile_matrix g) of
                  None \<Rightarrow> None
                | Some m \<Rightarrow> Some (g\<lparr>tile_matrix := m\<rparr>))))"

subsection \<open>The merge-settle loop\<close>

text \<open>Neither pass creates a tile: a merge removes one, a fall moves one.\<close>

lemma set_cell_SomeD:
  "set_cell m r c v = Some m' \<Longrightarrow>
   r < length m \<and> c < length (m ! r) \<and> m' = m[r := (m ! r)[c := v]]"
  by (auto simp: set_cell_def split: if_splits)

lemma get_cell_set_cell:
  "set_cell m r c v = Some m' \<Longrightarrow>
   get_cell m' r' c' = (if r' = r \<and> c' = c then Some v else get_cell m r' c')"
  by (auto simp: set_cell_def get_cell_def nth_list_update split: if_splits)

lemma set_cell_occupied:
  assumes "set_cell m r c v = Some m'" and "get_cell m r c = Some old"
  shows "occupied_count m' + (if old \<noteq> None then 1 else 0) =
         occupied_count m + (if v \<noteq> None then 1 else 0)"
proof -
  from assms(1) have r: "r < length m" and c: "c < length (m ! r)"
    and m': "m' = m[r := (m ! r)[c := v]]"
    by (auto dest: set_cell_SomeD)
  from assms(2) r c have old: "old = m ! r ! c" by (simp add: get_cell_def)
  from concat_filter_update_count [OF r c, of "\<lambda>t. t \<noteq> None" v] m' old
  show ?thesis by (simp add: occupied_count_def)
qed

lemma merge_column_occupied:
  "merge_column col row g merged = Some (g', merged') \<Longrightarrow>
   occupied_count (tile_matrix g') \<le> occupied_count (tile_matrix g) \<and>
   (merged' \<and> \<not> merged \<longrightarrow> occupied_count (tile_matrix g') < occupied_count (tile_matrix g)) \<and>
   (merged \<longrightarrow> merged')"
proof (induction col row g merged rule: merge_column.induct)
  case (1 col row g merged)
  show ?case
  proof (cases "row < grid_height g - 1")
    case False
    with "1.prems" show ?thesis by (simp add: merge_column.simps [of col row g merged])
  next
    case True
    note unf = merge_column.simps [of col row g merged]
    from True "1.prems" obtain current upper where
      cur: "get_cell (tile_matrix g) row col = Some current" and
      up: "get_cell (tile_matrix g) (row + 1) col = Some upper"
      by (auto simp: unf split: option.splits)
    show ?thesis
    proof (cases "current \<noteq> None \<and> upper \<noteq> None \<and> number (the current) = number (the upper)")
      case False
      with True cur up "1.prems" have "merge_column col (row + 1) g merged = Some (g', merged')"
        by (auto simp: unf split: if_splits)
      from "1.IH"(2) [OF True cur up False this] show ?thesis .
    next
      case mrg: True
      from True cur up mrg "1.prems" obtain m1 m2 where
        m1: "set_cell (tile_matrix g) row col (Some (merge_with (the current) (the upper))) = Some m1" and
        m2: "set_cell m1 (row + 1) col None = Some m2" and
        rec: "merge_column col (row + 1 + 1)
                (g\<lparr>tile_matrix := m2, score := score g + number (merge_with (the current) (the upper))\<rparr>) True
              = Some (g', merged')"
        by (auto simp: unf split: option.splits)
      from set_cell_occupied [OF m1 cur] mrg
      have c1: "occupied_count m1 = occupied_count (tile_matrix g)" by simp
      from get_cell_set_cell [OF m1, of "row + 1" col] up
      have "get_cell m1 (row + 1) col = Some upper" by simp
      from set_cell_occupied [OF m2 this] mrg
      have c2: "occupied_count m2 + 1 = occupied_count m1" by simp
      from "1.IH"(1) [OF True cur up mrg m1 m2 rec] c1 c2
      show ?thesis by simp
    qed
  qed
qed

lemma for_each_invariant:
  assumes "for_each xs body s = Some s'" and "P s"
    and "\<And>x s s'. x \<in> set xs \<Longrightarrow> P s \<Longrightarrow> body x s = Some s' \<Longrightarrow> P s'"
  shows "P s'"
  using assms
proof (induction xs arbitrary: s)
  case Nil
  then show ?case by simp
next
  case (Cons x xs)
  from Cons.prems(1) obtain s1 where s1: "body x s = Some s1"
    and rest: "for_each xs body s1 = Some s'"
    by (auto split: option.splits)
  from Cons.prems(3) [of x s s1] s1 Cons.prems(2) have s1P: "P s1" by simp
  show ?case
  proof (rule Cons.IH [OF rest s1P])
    fix y t t'
    assume "y \<in> set xs" "P t" "body y t = Some t'"
    with Cons.prems(3) [of y t t'] show "P t'" by simp
  qed
qed

lemma chain_occupied:
  assumes "chain_bottom_up_merge g columns = Some (g', merged')"
  shows "occupied_count (tile_matrix g') \<le> occupied_count (tile_matrix g) \<and>
         (merged' \<longrightarrow> occupied_count (tile_matrix g') < occupied_count (tile_matrix g))"
proof -
  let ?P = "\<lambda>s. occupied_count (tile_matrix (fst s)) \<le> occupied_count (tile_matrix g) \<and>
                (snd s \<longrightarrow> occupied_count (tile_matrix (fst s)) < occupied_count (tile_matrix g))"
  have "?P (g', merged')"
  proof (rule for_each_invariant [where P = ?P, OF assms [unfolded chain_bottom_up_merge_def]])
    show "?P (g, False)" by simp
  next
    fix x s s'
    assume P: "?P s"
      and step: "(case s of (g, merged) \<Rightarrow> merge_column x 0 g merged) = Some s'"
    obtain g1 b1 where s: "s = (g1, b1)" by (cases s)
    obtain g2 b2 where s': "s' = (g2, b2)" by (cases s')
    from step s s' have "merge_column x 0 g1 b1 = Some (g2, b2)" by simp
    from merge_column_occupied [OF this] P s s' show "?P s'" by auto
  qed
  then show ?thesis by simp
qed

lemma find_dest_props:
  "find_dest m col row = Some dest \<Longrightarrow>
   dest \<le> row \<and> (dest < row \<longrightarrow> get_cell m dest col = Some None)"
  by (induction row) (auto split: option.splits if_splits)

lemma fall_cell_occupied:
  assumes "fall_cell visited col row m = Some m'"
  shows "occupied_count m' = occupied_count m"
proof (cases "m' = m")
  case True
  then show ?thesis by simp
next
  case False
  with assms obtain t dest m1 where
    t: "get_cell m row col = Some t" "t \<noteq> None" and
    dest: "find_dest m col row = Some dest" "dest \<noteq> row" and
    m1: "set_cell m dest col t = Some m1" and
    m': "set_cell m1 row col None = Some m'"
    by (auto simp: fall_cell_def split: option.splits if_splits)
  from find_dest_props [OF dest(1)] dest(2)
  have empty: "get_cell m dest col = Some None" by simp
  from set_cell_occupied [OF m1 empty] t
  have c1: "occupied_count m1 = occupied_count m + 1" by simp
  from get_cell_set_cell [OF m1, of row col] dest(2) t
  have "get_cell m1 row col = Some t" by simp
  from set_cell_occupied [OF m' this] t
  have "occupied_count m' + 1 = occupied_count m1" by simp
  with c1 show ?thesis by simp
qed

lemma fall_occupied:
  assumes "fall_disconnected_tiles g = Some g'"
  shows "occupied_count (tile_matrix g') = occupied_count (tile_matrix g)"
proof -
  from assms obtain visited where
    loop: "for_each [0..<grid_width g]
             (\<lambda>col. for_each (rev [0..<grid_height g - 1]) (fall_cell visited col))
             (tile_matrix g) = Some (tile_matrix g')"
    by (auto simp: fall_disconnected_tiles_def split: option.splits prod.splits)
  let ?P = "\<lambda>m. occupied_count m = occupied_count (tile_matrix g)"
  have inner: "?P m'" if "?P m"
    and "for_each (rev [0..<grid_height g - 1]) (fall_cell visited col) m = Some m'" for col m m'
    by (rule for_each_invariant [where P = ?P, OF that(2) that(1)])
       (simp add: fall_cell_occupied)
  show ?thesis
    by (rule for_each_invariant [where P = ?P, OF loop]) (auto intro: inner)
qed

text \<open>
  The loop \<^verbatim>\<open>while True: merged = self.chain_bottom_up_merge(affected_cols); ...\<close> of
  \<^verbatim>\<open>update_grid\<close>. Beside the grid at the exit, the function returns the number of
  iterations that ran the gravity pass (a counter the source does not keep).
\<close>

function merge_settle_loop :: "game_grid \<Rightarrow> nat list \<Rightarrow> (game_grid \<times> nat) option" where
  "merge_settle_loop g affected_cols =
     (case chain_bottom_up_merge g affected_cols of
        None \<Rightarrow> None
      | Some (g1, merged) \<Rightarrow>
          (if merged then
             (case fall_disconnected_tiles g1 of
                None \<Rightarrow> None
              | Some g2 \<Rightarrow>
                  (case merge_settle_loop g2 affected_cols of
                     None \<Rightarrow> None
                   | Some (g3, k) \<Rightarrow> Some (g3, Suc k)))
           else Some (g1, 0)))"
  by pat_completeness auto
termination
proof (relation "measure (\<lambda>(g, affected_cols). occupied_count (tile_matrix g))")
  show "wf (measure (\<lambda>(g, affected_cols). occupied_count (tile_matrix g)))"
    by simp
next
  fix g :: game_grid and affected_cols x2 g1 merged g2
  assume "chain_bottom_up_merge g affected_cols = Some x2" and "(g1, merged) = x2"
    and merged and fall: "fall_disconnected_tiles g1 = Some g2"
  then have "chain_bottom_up_merge g affected_cols = Some (g1, True)" by simp
  from chain_occupied [OF this] fall_occupied [OF fall]
  show "((g2, affected_cols), (g, affected_cols))
        \<in> measure (\<lambda>(g, affected_cols). occupied_count (tile_matrix g))"
    by simp
qed

declare merge_settle_loop.simps [simp del]

subsection \<open>Locking a piece\<close>

text \<open>
  The body of the two nested loops of \<^verbatim>\<open>update_grid\<close> that place the tiles. The set
  \<open>affected_cols\<close> is the list of its elements, without repetition; the merge pass
  treats the columns one by one, each on its own cells.
\<close>

definition lock_cell ::
  "matrix \<Rightarrow> point \<Rightarrow> nat \<Rightarrow> nat \<Rightarrow> nat \<Rightarrow> game_grid \<times> nat list \<Rightarrow> (game_grid \<times> nat list) option" where
  "lock_cell tiles_to_lock blc_position n_rows col row s =
     (case s of (g, affected_cols) \<Rightarrow>
        (case get_cell tiles_to_lock row col of
           None \<Rightarrow> None
         | Some t \<Rightarrow>
             (if t \<noteq> None then
                (let pos_x = point_x blc_position + int col;
                     pos_y = point_y blc_position + (int n_rows - 1 - int row)
                 in if is_inside g pos_y pos_x then
                      (case set_cell (tile_matrix g) (nat pos_y) (nat pos_x) t of
                         None \<Rightarrow> None
                       | Some m \<Rightarrow>
                           Some (g\<lparr>tile_matrix := m\<rparr>, List.insert (nat pos_x) affected_cols))
                    else Some (g\<lparr>game_over := True\<rparr>, affected_cols))
              else Some s)))"

definition lock_tiles :: "game_grid \<Rightarrow> matrix \<Rightarrow> point \<Rightarrow> (game_grid \<times> nat list) option" where
  "lock_tiles g tiles_to_lock blc_position =
     (case tiles_to_lock of
        [] \<Rightarrow> None
      | first_row # _ \<Rightarrow>
          for_each [0..<length first_row]
            (\<lambda>col. for_each [0..<length tiles_to_lock]
                      (lock_cell tiles_to_lock blc_position (length tiles_to_lock) col))
            (g\<lparr>current_tetromino := None\<rparr>, []))"

text \<open>
  \<^verbatim>\<open>GameGrid.update_grid\<close>: the outer \<open>None\<close> is a call that never returns, \<open>Some None\<close>
  is IndexError, \<open>Some (Some (g', over))\<close> is the grid after the call and the returned flag.
\<close>

definition update_grid :: "game_grid \<Rightarrow> matrix \<Rightarrow> point \<Rightarrow> (game_grid \<times> bool) option option" where
  "update_grid g tiles_to_lock blc_position =
     (case lock_tiles g tiles_to_lock blc_position of
        None \<Rightarrow> Some None
      | Some (g1, affected_cols) \<Rightarrow>
          (if game_over g1 then Some (Some (g1, True))
           else
             (case merge_settle_loop g1 affected_cols of
                None \<Rightarrow> Some None
              | Some (g2, k) \<Rightarrow>
                  (case clear_full_rows_return_columns g2 of
                     None \<Rightarrow> None
                   | Some None \<Rightarrow> Some None
                   | Some (Some (g3, cleared_cols)) \<Rightarrow>
                       (case fall_disconnected_tiles g3 of
                          None \<Rightarrow> Some None
                        | Some g4 \<Rightarrow> Some (Some (g4, False)))))))"

section \<open>Moving and rotating a tetromino\<close>

text \<open>
  \<^verbatim>\<open>np.rot90(m, -1)\<close>, which numpy computes as the transposed matrix with the order of
  its columns reversed.
\<close>

definition rot90_cw :: "'a list list \<Rightarrow> 'a list list" where
  "rot90_cw m = map rev (transpose m)"

text \<open>
  The validation loops of \<^verbatim>\<open>Tetromino.rotate\<close> over the cells \<open>(r, c)\<close> in the order of
  the two nested \<^verbatim>\<open>for\<close> loops; \<open>Some True\<close> is the early \<^verbatim>\<open>return False\<close>. \<open>gh\<close> and
  \<open>gw\<close> are the class attributes \<^verbatim>\<open>Tetromino.grid_height\<close> and \<^verbatim>\<open>Tetromino.grid_width\<close>.
\<close>

fun rotation_blocked ::
  "int \<Rightarrow> int \<Rightarrow> game_grid \<Rightarrow> point \<Rightarrow> matrix \<Rightarrow> (nat \<times> nat) list \<Rightarrow> bool option" where
  "rotation_blocked gh gw g blc rotated [] = Some False"
| "rotation_blocked gh gw g blc rotated ((r, c) # cells) =
     (case get_cell rotated r c of
        None \<Rightarrow> None
      | Some t \<Rightarrow>
          (if t \<noteq> None then
             (if point_x blc + int c < 0 \<or> point_x blc + int c \<ge> gw \<or>
                 point_y blc + (int (length rotated) - 1) - int r < 0 \<or>
                 point_y blc + (int (length rotated) - 1) - int r \<ge> gh
              then Some True
              else
                (case is_occupied g (point_y blc + (int (length rotated) - 1) - int r)
                        (point_x blc + int c) of
                   None \<Rightarrow> None
                 | Some occ \<Rightarrow>
                     (if occ then Some True
                      else rotation_blocked gh gw g blc rotated cells)))
           else rotation_blocked gh gw g blc rotated cells))"

text \<open>\<^verbatim>\<open>Tetromino.rotate\<close> (named \<open>rotate_piece\<close>: the list library has a \<open>rotate\<close>).\<close>

definition rotate_piece :: "int \<Rightarrow> int \<Rightarrow> tetromino \<Rightarrow> game_grid \<Rightarrow> (bool \<times> tetromino) option" where
  "rotate_piece gh gw t g =
     (let rotated = rot90_cw (tet_matrix t); n = length rotated
      in case rotation_blocked gh gw g (bottom_left_cell t) rotated
                (List.product [0..<n] [0..<n]) of
           None \<Rightarrow> None
         | Some blocked \<Rightarrow>
             (if blocked then Some (False, t) else Some (True, t\<lparr>tet_matrix := rotated\<rparr>)))"







subsection \<open>Views of a tetromino's cells\<close>

text \<open>
  The occupied cells of a matrix as the constructor's \<open>(col_index, row_index)\<close> pairs; the
  occupied cells of a piece as (rows above, columns right of) its bottom-left cell on the
  board, by \<open>get_cell_position\<close>; and the board rows of the occupied cells.
\<close>

definition occupied_col_row :: "matrix \<Rightarrow> (nat \<times> nat) list" where
  "occupied_col_row m = map (\<lambda>(r, c). (c, r)) (occupied_list m)"

definition occupied_from_bottom :: "tetromino \<Rightarrow> (int \<times> int) list" where
  "occupied_from_bottom t =
     map (\<lambda>(r, c). (point_y (get_cell_position t (int r) (int c)) - point_y (bottom_left_cell t),
                     point_x (get_cell_position t (int r) (int c)) - point_x (bottom_left_cell t)))
         (occupied_list (tet_matrix t))"

definition occupied_ys :: "tetromino \<Rightarrow> int list" where
  "occupied_ys t =
     map (\<lambda>(r, c). point_y (get_cell_position t (int r) (int c))) (occupied_list (tet_matrix t))"

section \<open>Notions for stating the claims\<close>

text \<open>The column \<open>c\<close> of a matrix, bottom row first, and the matrix with that column replaced.\<close>

definition column :: "'a list list \<Rightarrow> nat \<Rightarrow> 'a list" where
  "column m c = map (\<lambda>row. row ! c) m"

definition set_column :: "'a list list \<Rightarrow> nat \<Rightarrow> 'a list \<Rightarrow> 'a list list" where
  "set_column m c xs = map (\<lambda>(row, x). row[c := x]) (zip m xs)"

text \<open>
  The merge pass on one column as the specification words it: from the bottom, two
  adjacent tiles of equal value become the doubled tile and an empty cell, and the scan
  goes on two cells further; otherwise it goes on one cell further. With it, the score
  the merges of the column add, and their number.
\<close>

fun merged_column :: "tile option list \<Rightarrow> tile option list" where
  "merged_column (Some a # Some b # rest) =
     (if number a = number b then Some (a\<lparr>number := number a * 2\<rparr>) # None # merged_column rest
      else Some a # merged_column (Some b # rest))"
| "merged_column (x # rest) = x # merged_column rest"
| "merged_column [] = []"

fun merge_gain :: "tile option list \<Rightarrow> int" where
  "merge_gain (Some a # Some b # rest) =
     (if number a = number b then number a * 2 + merge_gain rest
      else merge_gain (Some b # rest))"
| "merge_gain (x # rest) = merge_gain rest"
| "merge_gain [] = 0"

fun merge_count :: "tile option list \<Rightarrow> nat" where
  "merge_count (Some a # Some b # rest) =
     (if number a = number b then Suc (merge_count rest)
      else merge_count (Some b # rest))"
| "merge_count (x # rest) = merge_count rest"
| "merge_count [] = 0"

definition mergeable :: "tile option \<Rightarrow> tile option \<Rightarrow> bool" where
  "mergeable x y = (x \<noteq> None \<and> y \<noteq> None \<and> number (the x) = number (the y))"

text \<open>The tiles of a grid carry non-negative numbers (they start at 2 or 4 and double).\<close>

definition tile_nonneg :: "tile option \<Rightarrow> bool" where
  "tile_nonneg t = (case t of None \<Rightarrow> True | Some ti \<Rightarrow> 0 \<le> number ti)"

definition tiles_nonneg :: "matrix \<Rightarrow> bool" where
  "tiles_nonneg m = list_all (list_all tile_nonneg) m"

text \<open>
  What the passes of a lock cycle keep of the grid \<open>g0\<close> they start from: the shape, the
  dimensions, the flag and the piece; and, when the tiles of \<open>g0\<close> are non-negative, the
  non-negative tiles and a score that is not below the score of \<open>g0\<close>.
\<close>

definition follows :: "game_grid \<Rightarrow> game_grid \<Rightarrow> bool" where
  "follows g0 g =
     (shape_ok g \<and> grid_height g = grid_height g0 \<and> grid_width g = grid_width g0 \<and>
      game_over g = game_over g0 \<and> current_tetromino g = current_tetromino g0 \<and>
      (tiles_nonneg (tile_matrix g0) \<longrightarrow> tiles_nonneg (tile_matrix g) \<and> score g0 \<le> score g))"

text \<open>
  A row is full when every cell of it holds a tile. The clearing phase as the
  specification words it: the full rows are deleted, the rows above them move down, and
  as many empty rows come in at the top.
\<close>

definition full_row :: "tile option list \<Rightarrow> bool" where
  "full_row tiles = (None \<notin> set tiles)"

definition rows_cleared :: "nat \<Rightarrow> matrix \<Rightarrow> matrix" where
  "rows_cleared w m =
     filter (\<lambda>tiles. \<not> full_row tiles) m @
     replicate (length (filter full_row m)) (replicate w None)"

text \<open>
  The board coordinates \<open>(y, x)\<close> of the occupied cells of a footprint, by the formula of
  \<open>update_grid\<close>.
\<close>

definition footprint_positions :: "matrix \<Rightarrow> point \<Rightarrow> (int \<times> int) list" where
  "footprint_positions tiles_to_lock blc_position =
     map (\<lambda>(row, col). (point_y blc_position + (int (length tiles_to_lock) - 1 - int row),
                          point_x blc_position + int col))
         (occupied_list tiles_to_lock)"

text \<open>
  The test of \<open>rotate_piece\<close> as the specification words it, read on the matrix of the
  grid: every occupied cell \<open>(r, c)\<close> of the matrix turned clockwise (the transposed
  matrix with its columns reversed) goes to the column \<open>x + c\<close> and the row
  \<open>y + (n - 1) - r\<close> of the board, where \<open>(x, y)\<close> is the unchanged bottom-left cell;
  that cell lies inside the board of \<open>gh\<close> rows and \<open>gw\<close> columns, and the grid holds no
  tile there.
\<close>

definition rotation_fits :: "int \<Rightarrow> int \<Rightarrow> tetromino \<Rightarrow> game_grid \<Rightarrow> bool" where
  "rotation_fits gh gw t g =
     (let rotated = map rev (transpose (tet_matrix t)); n = length rotated
      in list_all
           (\<lambda>r. list_all
              (\<lambda>c. rotated ! r ! c = None \<or>
                 (0 \<le> point_x (bottom_left_cell t) + int c \<and>
                  point_x (bottom_left_cell t) + int c < gw \<and>
                  0 \<le> point_y (bottom_left_cell t) + (int n - 1) - int r \<and>
                  point_y (bottom_left_cell t) + (int n - 1) - int r < gh \<and>
                  \<not> (point_y (bottom_left_cell t) + (int n - 1) - int r < int (grid_height g) \<and>
                     point_x (bottom_left_cell t) + int c < int (grid_width g) \<and>
                     tile_matrix g ! nat (point_y (bottom_left_cell t) + (int n - 1) - int r)
                                  ! nat (point_x (bottom_left_cell t) + int c) \<noteq> None)))
              [0..<n])
           [0..<n])"






section \<open>The tetromino shapes\<close>

lemma Tetromino_init_matrix:
  assumes "Tetromino_init gh gw rnd ty = Some t"
  shows "tet_matrix t =
     (if ty = ''I'' then
        [[None, Some (Tile_init (rnd 0)), None, None],
         [None, Some (Tile_init (rnd 1)), None, None],
         [None, Some (Tile_init (rnd 2)), None, None],
         [None, Some (Tile_init (rnd 3)), None, None]]
      else if ty = ''O'' then
        [[Some (Tile_init (rnd 0)), Some (Tile_init (rnd 1))],
         [Some (Tile_init (rnd 2)), Some (Tile_init (rnd 3))]]
      else if ty = ''Z'' then
        [[None, None, None],
         [Some (Tile_init (rnd 0)), Some (Tile_init (rnd 1)), None],
         [None, Some (Tile_init (rnd 2)), Some (Tile_init (rnd 3))]]
      else if ty = ''S'' then
        [[None, None, None],
         [None, Some (Tile_init (rnd 0)), Some (Tile_init (rnd 1))],
         [Some (Tile_init (rnd 2)), Some (Tile_init (rnd 3)), None]]
      else if ty = ''T'' then
        [[None, Some (Tile_init (rnd 3)), None],
         [Some (Tile_init (rnd 0)), Some (Tile_init (rnd 1)), Some (Tile_init (rnd 2))],
         [None, None, None]]
      else if ty = ''J'' then
        [[None, None, None],
         [Some (Tile_init (rnd 0)), Some (Tile_init (rnd 1)), Some (Tile_init (rnd 2))],
         [None, None, Some (Tile_init (rnd 3))]]
      else
        [[None, None, None],
         [Some (Tile_init (rnd 1)), Some (Tile_init (rnd 2)), Some (Tile_init (rnd 3))],
         [Some (Tile_init (rnd 0)), None, None]])"
  using assms
  by (auto simp: Tetromino_init_def shape_cells_def np_full_def set_cell_def numeral_eq_Suc
           split: if_splits option.splits)

text \<open>
  Claim C6, as the code has it. For each of the seven types the constructor builds an
  \<open>n \<times> n\<close> matrix with exactly four tiles, and the pairs listed for the type are the
  \<open>(col_index, row_index)\<close> positions of the tiles in that matrix:
  I (n = 4) (1,0) (1,1) (1,2) (1,3); O (n = 2) (0,0) (1,0) (0,1) (1,1);
  Z (n = 3) (0,1) (1,1) (1,2) (2,2); S (n = 3) (1,1) (2,1) (0,2) (1,2);
  T (n = 3) (0,1) (1,1) (2,1) (1,0); J (n = 3) (0,1) (1,1) (2,1) (2,2);
  L (n = 3) (0,2) (0,1) (1,1) (2,1).
\<close>

theorem tetromino_patterns:
  assumes "Tetromino_init gh gw rnd ty = Some t"
  shows "occupied_count (tet_matrix t) = 4 \<and>
    (ty = ''I'' \<longrightarrow> has_shape (tet_matrix t) 4 4 \<and>
       set (occupied_col_row (tet_matrix t)) = {(1,0), (1,1), (1,2), (1,3)}) \<and>
    (ty = ''O'' \<longrightarrow> has_shape (tet_matrix t) 2 2 \<and>
       set (occupied_col_row (tet_matrix t)) = {(0,0), (1,0), (0,1), (1,1)}) \<and>
    (ty = ''Z'' \<longrightarrow> has_shape (tet_matrix t) 3 3 \<and>
       set (occupied_col_row (tet_matrix t)) = {(0,1), (1,1), (1,2), (2,2)}) \<and>
    (ty = ''S'' \<longrightarrow> has_shape (tet_matrix t) 3 3 \<and>
       set (occupied_col_row (tet_matrix t)) = {(1,1), (2,1), (0,2), (1,2)}) \<and>
    (ty = ''T'' \<longrightarrow> has_shape (tet_matrix t) 3 3 \<and>
       set (occupied_col_row (tet_matrix t)) = {(0,1), (1,1), (2,1), (1,0)}) \<and>
    (ty = ''J'' \<longrightarrow> has_shape (tet_matrix t) 3 3 \<and>
       set (occupied_col_row (tet_matrix t)) = {(0,1), (1,1), (2,1), (2,2)}) \<and>
    (ty = ''L'' \<longrightarrow> has_shape (tet_matrix t) 3 3 \<and>
       set (occupied_col_row (tet_matrix t)) = {(0,2), (0,1), (1,1), (2,1)})"
proof -
  from assms have ty: "ty = ''I'' \<or> ty = ''O'' \<or> ty = ''Z'' \<or> ty = ''S'' \<or> ty = ''T''
      \<or> ty = ''J'' \<or> ty = ''L''"
    by (simp add: Tetromino_init_def shape_cells_def split: if_splits)
  note m = Tetromino_init_matrix [OF assms]
  note defs = occupied_count_def has_shape_def occupied_col_row_def occupied_list_def
    upt_conv_Cons
  from ty show ?thesis
  proof (elim disjE)
    assume "ty = ''I''" with m show ?thesis by (auto simp: defs numeral_eq_Suc)
  next
    assume "ty = ''O''" with m show ?thesis by (auto simp: defs numeral_eq_Suc)
  next
    assume "ty = ''Z''" with m show ?thesis by (auto simp: defs numeral_eq_Suc)
  next
    assume "ty = ''S''" with m show ?thesis by (auto simp: defs numeral_eq_Suc)
  next
    assume "ty = ''T''" with m show ?thesis by (auto simp: defs numeral_eq_Suc)
  next
    assume "ty = ''J''" with m show ?thesis by (auto simp: defs numeral_eq_Suc)
  next
    assume "ty = ''L''" with m show ?thesis by (auto simp: defs numeral_eq_Suc)
  qed
qed

text \<open>The theorem of C6 at the type I on a board of 16 columns and 20 rows.\<close>

theorem tetromino_patterns_witness:
  "Tetromino_init 20 16 int ''I'' \<noteq> None \<and>
   occupied_count (tet_matrix (the (Tetromino_init 20 16 int ''I''))) = 4 \<and>
   set (occupied_col_row (tet_matrix (the (Tetromino_init 20 16 int ''I'')))) =
     {(1,0), (1,1), (1,2), (1,3)}"
proof -
  have ex: "Tetromino_init 20 16 int ''I'' \<noteq> None" by code_simp
  then obtain t where t: "Tetromino_init 20 16 int ''I'' = Some t" by blast
  from tetromino_patterns [OF t] t show ?thesis by simp
qed

text \<open>
  Claim C6 as stated reads the pairs as (row, col) with row 0 the bottom of the local
  matrix. For the type I that would be a horizontal bar one row above the bottom; the
  constructor builds a vertical bar in column 1, on the rows 0 to 3 above the bottom-left
  cell.
\<close>

theorem pattern_row_col_bottom_counterexample:
  "map_option (set \<circ> occupied_from_bottom) (Tetromino_init 20 16 int ''I'') =
     Some {(3,1), (2,1), (1,1), (0,1)} \<and>
   map_option (set \<circ> occupied_from_bottom) (Tetromino_init 20 16 int ''I'') \<noteq>
     Some {(1,0), (1,1), (1,2), (1,3)}"
  by code_simp

section \<open>Gravity is not idempotent\<close>

text \<open>
  Claim C3 (two calls of the gravity pass in a row leave the same grid) on a board of one
  column and four rows with tiles on the rows 1 and 2 and nothing on the floor. The
  first call scans the column from the top: the upper tile rests on the lower one and
  stays, then the lower one falls to the floor. The second call finds the upper tile
  floating over an empty cell and lets it fall: the two calls give different grids.
\<close>

theorem fall_twice_differs:
  "fall_disconnected_tiles
     \<lparr>grid_height = 4, grid_width = 1,
      tile_matrix = [[None], [Some \<lparr>number = 2\<rparr>], [Some \<lparr>number = 4\<rparr>], [None]],
      current_tetromino = None, game_over = False, score = 0\<rparr> =
   Some \<lparr>grid_height = 4, grid_width = 1,
      tile_matrix = [[Some \<lparr>number = 2\<rparr>], [None], [Some \<lparr>number = 4\<rparr>], [None]],
      current_tetromino = None, game_over = False, score = 0\<rparr> \<and>
   fall_disconnected_tiles
     \<lparr>grid_height = 4, grid_width = 1,
      tile_matrix = [[Some \<lparr>number = 2\<rparr>], [None], [Some \<lparr>number = 4\<rparr>], [None]],
      current_tetromino = None, game_over = False, score = 0\<rparr> =
   Some \<lparr>grid_height = 4, grid_width = 1,
      tile_matrix = [[Some \<lparr>number = 2\<rparr>], [Some \<lparr>number = 4\<rparr>], [None], [None]],
      current_tetromino = None, game_over = False, score = 0\<rparr>"
  by code_simp

section \<open>Spawning a tetromino\<close>

lemma randint_range:
  assumes "randint a b e = Some x"
  shows "a \<le> x \<and> x \<le> b"
proof -
  from assms have ab: "a \<le> b" and x: "x = a + e mod (b - a + 1)"
    by (auto simp: randint_def split: if_splits)
  from ab have pos: "0 < b - a + 1" by simp
  from pos_mod_sign [OF pos, of e] pos_mod_bound [OF pos, of e] x
  show ?thesis by simp
qed

lemma randint_outcomes: "a \<le> x \<Longrightarrow> x \<le> b \<Longrightarrow> randint a b (x - a) = Some x"
  by (simp add: randint_def)

lemma Tetromino_init_Some:
  assumes "shape_cells ty = Some (n, cells)" and "int n \<le> gw"
  shows "\<exists>t. Tetromino_init gh gw rnd ty = Some t"
proof -
  from assms(1) have ty: "ty = ''I'' \<or> ty = ''O'' \<or> ty = ''Z'' \<or> ty = ''S'' \<or> ty = ''T''
      \<or> ty = ''J'' \<or> ty = ''L''"
    by (simp add: shape_cells_def split: if_splits)
  from assms(2) have r: "randint 0 (gw - int n) (rnd 4) \<noteq> None"
    by (simp add: randint_def)
  from ty assms(1) r show ?thesis
    by (elim disjE)
       (auto simp: Tetromino_init_def shape_cells_def np_full_def set_cell_def numeral_eq_Suc)
qed

text \<open>
  Claim C7, as the code has it. On a board of width \<open>gw\<close> and height \<open>gh\<close>, for every
  type with matrix size \<open>n \<le> gw\<close> and every outcome of the randomness, the constructor
  returns a piece whose bottom-left x lies in \<open>[0, gw - n]\<close> and whose bottom-left y is
  \<open>gh - 1\<close>: the bottom row of the local matrix is on the top row of the board, every
  tile of the piece is on that row or above it, and the topmost tile is above the board
  (on row \<open>gh\<close> or higher).
\<close>

theorem spawn_position:
  assumes "shape_cells ty = Some (n, cells)" and "int n \<le> gw"
  shows "\<exists>t. Tetromino_init gh gw rnd ty = Some t \<and>
     0 \<le> point_x (bottom_left_cell t) \<and> point_x (bottom_left_cell t) \<le> gw - int n \<and>
     point_y (bottom_left_cell t) = gh - 1 \<and>
     length (tet_matrix t) = n \<and>
     point_y (get_cell_position t (int n - 1) c) = gh - 1 \<and>
     (\<forall>y \<in> set (occupied_ys t). gh - 1 \<le> y) \<and>
     gh \<le> Max (set (occupied_ys t))"
proof -
  from Tetromino_init_Some [OF assms] obtain t where t: "Tetromino_init gh gw rnd ty = Some t"
    by blast
  from assms(1) have ty: "ty = ''I'' \<or> ty = ''O'' \<or> ty = ''Z'' \<or> ty = ''S'' \<or> ty = ''T''
      \<or> ty = ''J'' \<or> ty = ''L''"
    by (simp add: shape_cells_def split: if_splits)
  from t assms(1) obtain rx where rx: "randint 0 (gw - int n) (rnd 4) = Some rx"
    and blc: "bottom_left_cell t = \<lparr>point_x = rx, point_y = gh - 1\<rparr>"
    by (auto simp: Tetromino_init_def split: option.splits)
  note m = Tetromino_init_matrix [OF t]
  from ty assms(1) m have len: "length (tet_matrix t) = n"
    by (elim disjE) (auto simp: shape_cells_def)
  from len blc have bottom: "point_y (get_cell_position t (int n - 1) c) = gh - 1"
    by (simp add: get_cell_position_def)
  from ty m blc have ys: "(\<forall>y \<in> set (occupied_ys t). gh - 1 \<le> y) \<and> gh \<le> Max (set (occupied_ys t))"
    by (elim disjE)
       (simp_all add: occupied_ys_def occupied_list_def get_cell_position_def upt_conv_Cons)
  from t randint_range [OF rx] blc len bottom ys show ?thesis by simp
qed

text \<open>The theorem of C7 at the type O on a board of 16 columns and 20 rows.\<close>

theorem spawn_position_witness:
  "shape_cells ''O'' = Some (2, [(0,0), (1,0), (0,1), (1,1)]) \<and> int 2 \<le> 16 \<and>
   (\<exists>t. Tetromino_init 20 16 int ''O'' = Some t \<and>
     0 \<le> point_x (bottom_left_cell t) \<and> point_x (bottom_left_cell t) \<le> 16 - int 2 \<and>
     point_y (bottom_left_cell t) = 20 - 1 \<and>
     length (tet_matrix t) = 2 \<and>
     point_y (get_cell_position t (int 2 - 1) 0) = 20 - 1 \<and>
     (\<forall>y \<in> set (occupied_ys t). 20 - 1 \<le> y) \<and>
     20 \<le> Max (set (occupied_ys t)))"
proof -
  have h1: "shape_cells ''O'' = Some (2, [(0,0), (1,0), (0,1), (1,1)])"
    by (simp add: shape_cells_def)
  have h2: "int 2 \<le> 16" by simp
  from spawn_position [OF h1 h2, of 20 int 0] h1 h2 show ?thesis by blast
qed

text \<open>
  Claim C7 as stated puts the topmost tile of a fresh piece on the top row \<open>gh - 1\<close> of
  the board. A fresh O piece on a board of 20 rows has its topmost tiles on row 20.
\<close>

theorem spawn_top_cell_counterexample:
  "map_option (\<lambda>t. Max (set (occupied_ys t))) (Tetromino_init 20 16 int ''O'') = Some 20 \<and>
   map_option (\<lambda>t. Max (set (occupied_ys t))) (Tetromino_init 20 16 int ''O'') \<noteq> Some (20 - 1)"
  by code_simp

section \<open>The merge pass, column by column\<close>

lemma length_merged_column [simp]: "length (merged_column xs) = length xs"
  by (induction xs rule: merged_column.induct) auto

lemma has_shapeD:
  "has_shape m h w \<Longrightarrow> length m = h \<and> (\<forall>r < h. length (m ! r) = w)"
  by (auto simp: has_shape_def list_all_length)

lemma has_shapeI:
  "length m = h \<Longrightarrow> (\<And>r. r < h \<Longrightarrow> length (m ! r) = w) \<Longrightarrow> has_shape m h w"
  by (auto simp: has_shape_def list_all_length)

lemma get_cell_shape:
  "has_shape m h w \<Longrightarrow> r < h \<Longrightarrow> c < w \<Longrightarrow> get_cell m r c = Some (m ! r ! c)"
  by (auto simp: get_cell_def dest: has_shapeD)

lemma set_cell_shape:
  "has_shape m h w \<Longrightarrow> r < h \<Longrightarrow> c < w \<Longrightarrow>
   set_cell m r c v = Some (m[r := (m ! r)[c := v]])"
  by (auto simp: set_cell_def dest: has_shapeD)

lemma has_shape_update:
  "has_shape m h w \<Longrightarrow> has_shape (m[r := (m ! r)[c := v]]) h w"
  by (cases "r < length m") (auto intro!: has_shapeI dest!: has_shapeD simp: nth_list_update)

lemma length_column [simp]: "length (column m c) = length m"
  by (simp add: column_def)

lemma nth_column: "r < length m \<Longrightarrow> column m c ! r = m ! r ! c"
  by (simp add: column_def)

lemma column_update_same:
  "has_shape m h w \<Longrightarrow> r < h \<Longrightarrow> c < w \<Longrightarrow>
   column (m[r := (m ! r)[c := v]]) c = (column m c)[r := v]"
  by (rule nth_equalityI) (auto dest!: has_shapeD simp: nth_column nth_list_update)

lemma column_update_other:
  "c' \<noteq> c \<Longrightarrow> column (m[r := (m ! r)[c := v]]) c' = column m c'"
  by (cases "r < length m") (auto intro!: nth_equalityI simp: nth_column nth_list_update)

lemma set_column_update:
  "length xs = length m \<Longrightarrow>
   set_column (m[r := (m ! r)[c := v]]) c xs = set_column m c xs"
  by (cases "r < length m") (auto intro!: nth_equalityI simp: set_column_def nth_list_update)

lemma set_column_column [simp]: "set_column m c (column m c) = m"
  by (rule nth_equalityI) (auto simp: set_column_def column_def)

lemma has_shape_set_column:
  "has_shape m h w \<Longrightarrow> length xs = h \<Longrightarrow> has_shape (set_column m c xs) h w"
  by (rule has_shapeI) (auto dest!: has_shapeD simp: set_column_def)

lemma column_set_column:
  "has_shape m h w \<Longrightarrow> length xs = h \<Longrightarrow> c < w \<Longrightarrow>
   column (set_column m c xs) c' = (if c' = c then xs else column m c')"
  by (rule nth_equalityI) (auto dest!: has_shapeD simp: set_column_def column_def)

lemma merged_short:
  "length xs \<le> 1 \<Longrightarrow> merged_column xs = xs \<and> merge_gain xs = 0 \<and> merge_count xs = 0"
  by (cases xs rule: merged_column.cases) auto

lemma merged_step_no:
  "\<not> mergeable x y \<Longrightarrow>
   merged_column (x # y # rest) = x # merged_column (y # rest) \<and>
   merge_gain (x # y # rest) = merge_gain (y # rest) \<and>
   merge_count (x # y # rest) = merge_count (y # rest)"
  by (cases x; cases y) (auto simp: mergeable_def)

lemma merged_step_yes:
  "mergeable x y \<Longrightarrow>
   merged_column (x # y # rest) =
     Some (merge_with (the x) (the y)) # None # merged_column rest \<and>
   merge_gain (x # y # rest) = number (merge_with (the x) (the y)) + merge_gain rest \<and>
   merge_count (x # y # rest) = Suc (merge_count rest)"
  by (cases x; cases y) (auto simp: mergeable_def merge_with_def)

lemma drop_two:
  "Suc row < length xs \<Longrightarrow> drop row xs = xs ! row # xs ! Suc row # drop (Suc (Suc row)) xs"
  by (simp add: Cons_nth_drop_Suc)

lemma merge_column_spec:
  assumes "has_shape (tile_matrix g) (grid_height g) w" and "col < w" and "row \<le> grid_height g"
  shows "merge_column col row g merged =
     Some (g\<lparr>tile_matrix :=
               set_column (tile_matrix g) col
                 (take row (column (tile_matrix g) col) @
                  merged_column (drop row (column (tile_matrix g) col))),
             score := score g + merge_gain (drop row (column (tile_matrix g) col))\<rparr>,
           merged \<or> 0 < merge_count (drop row (column (tile_matrix g) col)))"
  using assms
proof (induction col row g merged rule: merge_column.induct)
  case (1 col row g merged)
  let ?m = "tile_matrix g"
  let ?C = "column ?m col"
  note shape = "1.prems"(1)
  from shape have len: "length ?m = grid_height g" by (auto dest: has_shapeD)
  note unf = merge_column.simps [of col row g merged]
  show ?case
  proof (cases "row < grid_height g - 1")
    case False
    with "1.prems"(3) len have "length (drop row ?C) \<le> 1" by simp
    from merged_short [OF this] False show ?thesis by (simp add: unf)
  next
    case True
    then have r0: "row < grid_height g" and r1: "row + 1 < grid_height g" by simp_all
    from get_cell_shape [OF shape r0 "1.prems"(2)]
    have cur: "get_cell ?m row col = Some (?m ! row ! col)" .
    from get_cell_shape [OF shape r1 "1.prems"(2)]
    have up: "get_cell ?m (row + 1) col = Some (?m ! (row + 1) ! col)" .
    from r1 len have C0: "?C ! row = ?m ! row ! col" and C1: "?C ! Suc row = ?m ! (row + 1) ! col"
      by (simp_all add: nth_column)
    from r1 len have dr: "drop row ?C = ?C ! row # ?C ! Suc row # drop (Suc (Suc row)) ?C"
      by (simp add: drop_two)
    show ?thesis
    proof (cases "mergeable (?m ! row ! col) (?m ! (row + 1) ! col)")
      case False
      then have cond: "\<not> (?m ! row ! col \<noteq> None \<and> ?m ! (row + 1) ! col \<noteq> None \<and>
          number (the (?m ! row ! col)) = number (the (?m ! (row + 1) ! col)))"
        by (simp add: mergeable_def)
      from r1 have le: "row + 1 \<le> grid_height g" by simp
      from "1.IH"(2) [OF True cur up cond shape "1.prems"(2) le]
      have ih: "merge_column col (row + 1) g merged =
         Some (g\<lparr>tile_matrix := set_column ?m col (take (row + 1) ?C @ merged_column (drop (row + 1) ?C)),
                 score := score g + merge_gain (drop (row + 1) ?C)\<rparr>,
               merged \<or> 0 < merge_count (drop (row + 1) ?C))" .
      from r1 len have tk: "take (row + 1) ?C = take row ?C @ [?C ! row]"
        by (simp add: take_Suc_conv_app_nth)
      from r1 len have dr1: "drop (row + 1) ?C = ?C ! Suc row # drop (Suc (Suc row)) ?C"
        by (simp add: Cons_nth_drop_Suc)
      from False C0 C1 have nm: "\<not> mergeable (?C ! row) (?C ! Suc row)" by simp
      from merged_step_no [OF nm, of "drop (Suc (Suc row)) ?C"] dr dr1 tk
      have "take row ?C @ merged_column (drop row ?C) =
            take (row + 1) ?C @ merged_column (drop (row + 1) ?C) \<and>
          merge_gain (drop row ?C) = merge_gain (drop (row + 1) ?C) \<and>
          merge_count (drop row ?C) = merge_count (drop (row + 1) ?C)"
        by simp
      moreover from True cur up cond
      have "merge_column col row g merged = merge_column col (row + 1) g merged"
        by (auto simp: unf)
      ultimately show ?thesis using ih by simp
    next
      case mrg: True
      then have cond: "?m ! row ! col \<noteq> None \<and> ?m ! (row + 1) ! col \<noteq> None \<and>
          number (the (?m ! row ! col)) = number (the (?m ! (row + 1) ! col))"
        by (simp add: mergeable_def)
      define a' where "a' = merge_with (the (?m ! row ! col)) (the (?m ! (row + 1) ! col))"
      define m1 where "m1 = ?m[row := (?m ! row)[col := Some a']]"
      define m2 where "m2 = m1[row + 1 := (m1 ! (row + 1))[col := None]]"
      define g1 where "g1 = g\<lparr>tile_matrix := m2, score := score g + number a'\<rparr>"
      have s1: "set_cell ?m row col
          (Some (merge_with (the (?m ! row ! col)) (the (?m ! (row + 1) ! col)))) = Some m1"
        unfolding m1_def a'_def by (rule set_cell_shape [OF shape r0 "1.prems"(2)])
      have shape1: "has_shape m1 (grid_height g) w"
        unfolding m1_def by (rule has_shape_update [OF shape])
      have s2: "set_cell m1 (row + 1) col None = Some m2"
        unfolding m2_def by (rule set_cell_shape [OF shape1 r1 "1.prems"(2)])
      have shape2: "has_shape m2 (grid_height g) w"
        unfolding m2_def by (rule has_shape_update [OF shape1])
      have g1: "tile_matrix g1 = m2" "grid_height g1 = grid_height g"
        "score g1 = score g + number a'"
        by (simp_all add: g1_def)
      from shape2 g1 have p1: "has_shape (tile_matrix g1) (grid_height g1) w" by simp
      from r1 g1 have le: "row + 1 + 1 \<le> grid_height g1" by simp
      from "1.IH"(1) [OF True cur up cond s1 s2, folded a'_def, folded g1_def, OF p1 "1.prems"(2) le]
      have ih: "merge_column col (row + 1 + 1) g1 True =
         Some (g1\<lparr>tile_matrix := set_column m2 col
                       (take (row + 1 + 1) (column m2 col) @
                        merged_column (drop (row + 1 + 1) (column m2 col))),
                   score := score g1 + merge_gain (drop (row + 1 + 1) (column m2 col))\<rparr>,
               True)"
        by (simp add: g1)
      have C1': "column m1 col = ?C[row := Some a']"
        unfolding m1_def by (rule column_update_same [OF shape r0 "1.prems"(2)])
      have "column m2 col = (column m1 col)[row + 1 := None]"
        unfolding m2_def by (rule column_update_same [OF shape1 r1 "1.prems"(2)])
      with C1' have C2: "column m2 col = ?C[row := Some a', Suc row := None]" by simp
      from r1 len have tk: "take (Suc (Suc row)) (column m2 col) = take row ?C @ [Some a', None]"
        by (simp add: C2 take_Suc_conv_app_nth)
      have drp: "drop (Suc (Suc row)) (column m2 col) = drop (Suc (Suc row)) ?C"
        by (simp add: C2)
      have len1: "length m1 = length ?m" by (simp add: m1_def)
      have sc: "set_column m2 col xs = set_column ?m col xs" if "length xs = length ?m" for xs
      proof -
        from that len1 have "set_column m2 col xs = set_column m1 col xs"
          unfolding m2_def by (simp add: set_column_update)
        also from that have "\<dots> = set_column ?m col xs"
          unfolding m1_def by (simp add: set_column_update)
        finally show ?thesis .
      qed
      from mrg C0 C1 have m': "mergeable (?C ! row) (?C ! Suc row)" by simp
      from merged_step_yes [OF m', of "drop (Suc (Suc row)) ?C"] dr C0 C1
      have mc: "merged_column (drop row ?C) = Some a' # None # merged_column (drop (Suc (Suc row)) ?C)"
        and mg: "merge_gain (drop row ?C) = number a' + merge_gain (drop (Suc (Suc row)) ?C)"
        and mn: "merge_count (drop row ?C) = Suc (merge_count (drop (Suc (Suc row)) ?C))"
        by (simp_all add: a'_def)
      from r1 len have lenx: "length (take row ?C @ Some a' # None # merged_column (drop (Suc (Suc row)) ?C))
          = length ?m"
        by simp
      from True cur up cond s1 s2
      have "merge_column col row g merged = merge_column col (row + 1 + 1) g1 True"
        by (auto simp: unf g1_def a'_def)
      with ih show ?thesis
        by (simp add: tk drp mc mg mn sc [OF lenx] g1_def add.assoc)
    qed
  qed
qed

lemma chain_loop_spec:
  assumes "has_shape (tile_matrix g) (grid_height g) w"
    and "\<forall>c \<in> set cols. c < w" and "distinct cols"
  shows "\<exists>g'. for_each cols (\<lambda>col (g, merged). merge_column col 0 g merged) (g, merged) =
           Some (g', merged \<or> (\<exists>c \<in> set cols. 0 < merge_count (column (tile_matrix g) c))) \<and>
         has_shape (tile_matrix g') (grid_height g) w \<and>
         grid_height g' = grid_height g \<and> grid_width g' = grid_width g \<and>
         game_over g' = game_over g \<and> current_tetromino g' = current_tetromino g \<and>
         score g' = score g + sum_list (map (\<lambda>c. merge_gain (column (tile_matrix g) c)) cols) \<and>
         (\<forall>c < w. column (tile_matrix g') c =
            (if c \<in> set cols then merged_column (column (tile_matrix g) c)
             else column (tile_matrix g) c))"
  using assms
proof (induction cols arbitrary: g merged)
  case Nil
  then show ?case by simp
next
  case (Cons c cs)
  let ?m = "tile_matrix g"
  define g1 where "g1 = g\<lparr>tile_matrix := set_column ?m c (merged_column (column ?m c)),
                          score := score g + merge_gain (column ?m c)\<rparr>"
  define merged1 where "merged1 = (merged \<or> 0 < merge_count (column ?m c))"
  from Cons.prems have cw: "c < w" and cs: "\<forall>c \<in> set cs. c < w" and dist: "distinct cs"
    and notin: "c \<notin> set cs"
    by simp_all
  from Cons.prems(1) have len: "length ?m = grid_height g" by (auto dest: has_shapeD)
  from merge_column_spec [OF Cons.prems(1) cw, of 0 merged]
  have step: "merge_column c 0 g merged = Some (g1, merged1)"
    by (simp add: g1_def merged1_def)
  from has_shape_set_column [OF Cons.prems(1), of "merged_column (column ?m c)" c] len
  have shape1: "has_shape (tile_matrix g1) (grid_height g1) w"
    by (simp add: g1_def)
  have cols1: "column (tile_matrix g1) c' = (if c' = c then merged_column (column ?m c) else column ?m c')"
    for c'
    using column_set_column [OF Cons.prems(1) _ cw, of "merged_column (column ?m c)" c'] len
    by (simp add: g1_def)
  from Cons.IH [OF shape1 cs dist, of merged1] obtain g' where
    run: "for_each cs (\<lambda>col (g, merged). merge_column col 0 g merged) (g1, merged1) =
           Some (g', merged1 \<or> (\<exists>c \<in> set cs. 0 < merge_count (column (tile_matrix g1) c)))"
    and shape': "has_shape (tile_matrix g') (grid_height g1) w"
    and same: "grid_height g' = grid_height g1" "grid_width g' = grid_width g1"
      "game_over g' = game_over g1" "current_tetromino g' = current_tetromino g1"
    and sc: "score g' = score g1 + sum_list (map (\<lambda>c. merge_gain (column (tile_matrix g1) c)) cs)"
    and cols': "\<forall>c < w. column (tile_matrix g') c =
            (if c \<in> set cs then merged_column (column (tile_matrix g1) c)
             else column (tile_matrix g1) c)"
    by blast
  from notin have other: "\<forall>c' \<in> set cs. column (tile_matrix g1) c' = column ?m c'"
    by (auto simp: cols1)
  then have gains: "map (\<lambda>c. merge_gain (column (tile_matrix g1) c)) cs =
      map (\<lambda>c. merge_gain (column ?m c)) cs"
    by simp
  from other have flag: "(\<exists>c \<in> set cs. 0 < merge_count (column (tile_matrix g1) c)) =
      (\<exists>c \<in> set cs. 0 < merge_count (column ?m c))"
    by simp
  have "for_each (c # cs) (\<lambda>col (g, merged). merge_column col 0 g merged) (g, merged) =
      Some (g', merged \<or> (\<exists>c \<in> set (c # cs). 0 < merge_count (column ?m c)))"
    using step run flag by (auto simp: merged1_def)
  moreover from shape' have "has_shape (tile_matrix g') (grid_height g) w"
    by (simp add: g1_def)
  moreover from same have "grid_height g' = grid_height g \<and> grid_width g' = grid_width g \<and>
         game_over g' = game_over g \<and> current_tetromino g' = current_tetromino g"
    by (simp add: g1_def)
  moreover from sc [unfolded gains]
  have "score g' = score g + sum_list (map (\<lambda>c. merge_gain (column ?m c)) (c # cs))"
    by (simp add: g1_def)
  moreover from cols' notin
  have "\<forall>c' < w. column (tile_matrix g') c' =
            (if c' \<in> set (c # cs) then merged_column (column ?m c') else column ?m c')"
    by (auto simp: cols1)
  ultimately show ?case by blast
qed

lemma merged_column_head:
  "merged_column (Some b # rest) ! 0 = Some y \<Longrightarrow>
   y = b \<or> (\<exists>c rest'. rest = Some c # rest' \<and> number b = number c \<and>
              y = b\<lparr>number := number b * 2\<rparr>)"
  by (cases "Some b # rest" rule: merged_column.cases) (auto split: if_splits)

lemma merged_column_adjacent:
  "Suc r < length xs \<Longrightarrow> merged_column xs ! r = Some x \<Longrightarrow>
   merged_column xs ! Suc r = Some y \<Longrightarrow> number x = number y \<Longrightarrow>
   xs ! r = Some x \<and>
   (\<exists>v v'. Suc (Suc r) < length xs \<and> xs ! Suc r = Some v \<and> xs ! Suc (Suc r) = Some v' \<and>
      number v = number v' \<and> y = v\<lparr>number := number v * 2\<rparr>)"
proof (induction xs arbitrary: r rule: merged_column.induct)
  case (1 a b rest)
  show ?case
  proof (cases "number a = number b")
    case True
    show ?thesis
    proof (cases r)
      case 0
      with True "1.prems" show ?thesis by simp
    next
      case (Suc r1)
      show ?thesis
      proof (cases r1)
        case 0
        with Suc True "1.prems" show ?thesis by simp
      next
        case (Suc r2)
        with \<open>r = Suc r1\<close> True "1.prems" "1.IH"(1) [OF True, of r2] show ?thesis by simp
      qed
    qed
  next
    case False
    show ?thesis
    proof (cases r)
      case 0
      with False "1.prems" have y: "merged_column (Some b # rest) ! 0 = Some y" and x: "x = a"
        by simp_all
      from merged_column_head [OF y] False "1.prems"(4) x
      obtain c rest' where "rest = Some c # rest'" "number b = number c"
        "y = b\<lparr>number := number b * 2\<rparr>"
        by auto
      with 0 x show ?thesis by simp
    next
      case (Suc r1)
      with False "1.prems" "1.IH"(2) [OF False, of r1] show ?thesis by simp
    qed
  qed
qed (case_tac [!] r, simp_all)

lemma merged_empty_cells:
  "merged_column (replicate k None) = replicate k None \<and>
   merge_count (replicate k None) = 0 \<and> merge_gain (replicate k None) = 0"
  by (induction k) auto

lemma merged_three:
  "number a = number b \<Longrightarrow> number b = number d \<Longrightarrow>
   merged_column ([Some a, Some b, Some d] @ replicate k None) =
     [Some (a\<lparr>number := number a * 2\<rparr>), None, Some d] @ replicate k None \<and>
   merge_count ([Some a, Some b, Some d] @ replicate k None) = 1 \<and>
   merge_gain ([Some a, Some b, Some d] @ replicate k None) = number a * 2"
  by (cases k) (simp_all add: merged_empty_cells)

text \<open>
  The merge pass takes the affected columns as a list, in the order in which Python
  iterates over the set. The order does not matter.
\<close>

lemma matrix_eq_columns:
  assumes "has_shape m h w" and "has_shape m' h w"
    and "\<forall>c < w. column m c = column m' c"
  shows "m = m'"
proof (rule nth_equalityI)
  from assms(1,2) show "length m = length m'" by (auto dest!: has_shapeD)
next
  fix r assume r: "r < length m"
  from has_shapeD [OF assms(1)] has_shapeD [OF assms(2)] r
  have len: "length (m ! r) = w" "length (m' ! r) = w" "r < length m'"
    by auto
  show "m ! r = m' ! r"
  proof (rule nth_equalityI)
    from len show "length (m ! r) = length (m' ! r)" by simp
  next
    fix c assume "c < length (m ! r)"
    with len assms(3) have "column m c ! r = column m' c ! r" by simp
    with r len show "m ! r ! c = m' ! r ! c" by (simp add: nth_column)
  qed
qed

lemma chain_order_irrelevant:
  assumes ok: "shape_ok g" and cols: "\<forall>c \<in> set cols. c < grid_width g"
    and d: "distinct cols" and d': "distinct cols'" and same: "set cols' = set cols"
  shows "chain_bottom_up_merge g cols' = chain_bottom_up_merge g cols"
proof -
  from ok have shape: "has_shape (tile_matrix g) (grid_height g) (grid_width g)"
    by (simp add: shape_ok_def)
  from cols same have cols': "\<forall>c \<in> set cols'. c < grid_width g" by simp
  let ?gain = "\<lambda>c. merge_gain (column (tile_matrix g) c)"
  from chain_loop_spec [OF shape cols d, of False] obtain g1 where
    r1: "chain_bottom_up_merge g cols =
           Some (g1, \<exists>c \<in> set cols. 0 < merge_count (column (tile_matrix g) c))"
    and s1: "has_shape (tile_matrix g1) (grid_height g) (grid_width g)"
    and f1: "grid_height g1 = grid_height g" "grid_width g1 = grid_width g"
      "game_over g1 = game_over g" "current_tetromino g1 = current_tetromino g"
    and sc1: "score g1 = score g + sum_list (map ?gain cols)"
    and c1: "\<forall>c < grid_width g. column (tile_matrix g1) c =
            (if c \<in> set cols then merged_column (column (tile_matrix g) c)
             else column (tile_matrix g) c)"
    unfolding chain_bottom_up_merge_def by auto
  from chain_loop_spec [OF shape cols' d', of False] obtain g2 where
    r2: "chain_bottom_up_merge g cols' =
           Some (g2, \<exists>c \<in> set cols'. 0 < merge_count (column (tile_matrix g) c))"
    and s2: "has_shape (tile_matrix g2) (grid_height g) (grid_width g)"
    and f2: "grid_height g2 = grid_height g" "grid_width g2 = grid_width g"
      "game_over g2 = game_over g" "current_tetromino g2 = current_tetromino g"
    and sc2: "score g2 = score g + sum_list (map ?gain cols')"
    and c2: "\<forall>c < grid_width g. column (tile_matrix g2) c =
            (if c \<in> set cols' then merged_column (column (tile_matrix g) c)
             else column (tile_matrix g) c)"
    unfolding chain_bottom_up_merge_def by auto
  from c1 c2 same have "\<forall>c < grid_width g. column (tile_matrix g2) c = column (tile_matrix g1) c"
    by simp
  from matrix_eq_columns [OF s2 s1 this] have m: "tile_matrix g2 = tile_matrix g1" .
  from d d' same have "sum_list (map ?gain cols') = sum_list (map ?gain cols)"
    by (simp add: sum_list_distinct_conv_sum_set)
  with sc1 sc2 have "score g2 = score g1" by simp
  with m f1 f2 have "g2 = g1" by (intro game_grid.equality) simp_all
  with r1 r2 same show ?thesis by simp
qed

section \<open>The claims on the merge pass\<close>

text \<open>
  Claim C1. On a grid of the constructor's shape and a set of columns of the grid, the
  merge pass returns; it replaces each affected column by the column that the bottom-up
  scan of the specification gives (the lower tile of an equal pair doubled, the upper
  cell cleared, the scan resumed two rows further), leaves the other columns and the
  other attributes as they are, adds the doubled values to the score, and returns true
  exactly when some affected column had a merge. A column of three equal tiles under
  empty cells has one merge: the bottom pair.
\<close>

theorem chain_bottom_up_merge_correct:
  assumes "shape_ok g" and "list_all (\<lambda>c. c < grid_width g) columns" and "distinct columns"
  shows "\<exists>g'. chain_bottom_up_merge g columns =
           Some (g', \<exists>c \<in> set columns. 0 < merge_count (column (tile_matrix g) c)) \<and>
         shape_ok g' \<and>
         grid_height g' = grid_height g \<and> grid_width g' = grid_width g \<and>
         game_over g' = game_over g \<and> current_tetromino g' = current_tetromino g \<and>
         score g' = score g + sum_list (map (\<lambda>c. merge_gain (column (tile_matrix g) c)) columns) \<and>
         (\<forall>c < grid_width g. column (tile_matrix g') c =
            (if c \<in> set columns then merged_column (column (tile_matrix g) c)
             else column (tile_matrix g) c)) \<and>
         (\<forall>c \<in> set columns. \<forall>a b d k.
            column (tile_matrix g) c = [Some a, Some b, Some d] @ replicate k None \<and>
            number a = number b \<and> number b = number d \<longrightarrow>
            column (tile_matrix g') c =
              [Some (a\<lparr>number := number a * 2\<rparr>), None, Some d] @ replicate k None \<and>
            merge_count (column (tile_matrix g) c) = 1 \<and>
            merge_gain (column (tile_matrix g) c) = number a * 2)"
proof -
  from assms(1) have shape: "has_shape (tile_matrix g) (grid_height g) (grid_width g)"
    by (simp add: shape_ok_def)
  from assms(2) have cols: "\<forall>c \<in> set columns. c < grid_width g"
    by (simp add: list_all_iff)
  from chain_loop_spec [OF shape cols assms(3), of False] obtain g' where
    run: "chain_bottom_up_merge g columns =
           Some (g', \<exists>c \<in> set columns. 0 < merge_count (column (tile_matrix g) c))"
    and shape': "has_shape (tile_matrix g') (grid_height g) (grid_width g)"
    and same: "grid_height g' = grid_height g" "grid_width g' = grid_width g"
      "game_over g' = game_over g" "current_tetromino g' = current_tetromino g"
    and sc: "score g' = score g + sum_list (map (\<lambda>c. merge_gain (column (tile_matrix g) c)) columns)"
    and cols': "\<forall>c < grid_width g. column (tile_matrix g') c =
            (if c \<in> set columns then merged_column (column (tile_matrix g) c)
             else column (tile_matrix g) c)"
    unfolding chain_bottom_up_merge_def by auto
  from shape' same have ok: "shape_ok g'" by (simp add: shape_ok_def)
  have three: "column (tile_matrix g') c =
              [Some (a\<lparr>number := number a * 2\<rparr>), None, Some d] @ replicate k None \<and>
            merge_count (column (tile_matrix g) c) = 1 \<and>
            merge_gain (column (tile_matrix g) c) = number a * 2"
    if "c \<in> set columns"
      and "column (tile_matrix g) c = [Some a, Some b, Some d] @ replicate k None"
      and "number a = number b" and "number b = number d"
    for c a b d k
  proof -
    from that(1) cols cols' have "column (tile_matrix g') c = merged_column (column (tile_matrix g) c)"
      by simp
    with merged_three [OF that(3,4), of k] that(2) show ?thesis by simp
  qed
  from run ok same sc cols' three show ?thesis by blast
qed

text \<open>
  The theorem of C1 on a column of three tiles of value 2: the pass merges the bottom
  pair into a 4, leaves the third tile and returns true.
\<close>

theorem chain_bottom_up_merge_correct_witness:
  "shape_ok \<lparr>grid_height = 3, grid_width = 1,
      tile_matrix = [[Some \<lparr>number = 2\<rparr>], [Some \<lparr>number = 2\<rparr>], [Some \<lparr>number = 2\<rparr>]],
      current_tetromino = None, game_over = False, score = 0\<rparr> \<and>
   list_all (\<lambda>c. c < 1) [0::nat] \<and> distinct [0::nat] \<and>
   (\<exists>g'. chain_bottom_up_merge \<lparr>grid_height = 3, grid_width = 1,
      tile_matrix = [[Some \<lparr>number = 2\<rparr>], [Some \<lparr>number = 2\<rparr>], [Some \<lparr>number = 2\<rparr>]],
      current_tetromino = None, game_over = False, score = 0\<rparr> [0] = Some (g', True) \<and>
      score g' = 4 \<and>
      column (tile_matrix g') 0 = [Some \<lparr>number = 4\<rparr>, None, Some \<lparr>number = 2\<rparr>])"
proof -
  let ?g = "\<lparr>grid_height = 3, grid_width = 1,
      tile_matrix = [[Some \<lparr>number = 2\<rparr>], [Some \<lparr>number = 2\<rparr>], [Some \<lparr>number = 2\<rparr>]],
      current_tetromino = None, game_over = False, score = 0\<rparr>"
  have h1: "shape_ok ?g" by (simp add: shape_ok_def has_shape_def)
  have h2: "list_all (\<lambda>c. c < grid_width ?g) [0::nat]" by simp
  have h3: "distinct [0::nat]" by simp
  from chain_bottom_up_merge_correct [OF h1 h2 h3] obtain g' where
    run: "chain_bottom_up_merge ?g [0] =
            Some (g', \<exists>c \<in> set [0]. 0 < merge_count (column (tile_matrix ?g) c))"
    and sc: "score g' = score ?g + sum_list (map (\<lambda>c. merge_gain (column (tile_matrix ?g) c)) [0])"
    and cols: "\<forall>c < grid_width ?g. column (tile_matrix g') c =
            (if c \<in> set [0] then merged_column (column (tile_matrix ?g) c)
             else column (tile_matrix ?g) c)"
    by blast
  from run have r: "chain_bottom_up_merge ?g [0] = Some (g', True)"
    by (simp add: column_def)
  from sc have s: "score g' = 4" by (simp add: column_def)
  from cols have c: "column (tile_matrix g') 0 = [Some \<lparr>number = 4\<rparr>, None, Some \<lparr>number = 2\<rparr>]"
    by (simp add: column_def)
  from h1 r s c show ?thesis by simp
qed

text \<open>
  Claim C4, as the code has it. After one merge pass, two vertically adjacent tiles of
  equal value remain in an affected column only where the upper one is the tile that
  this pass made by merging the tiles of the two rows above the lower one, which the
  pass left as it was.
\<close>

theorem merge_pass_remaining_pairs:
  assumes "shape_ok g" and "list_all (\<lambda>c. c < grid_width g) columns" and "distinct columns"
    and "chain_bottom_up_merge g columns = Some (g', merged)"
    and "c \<in> set columns" and "Suc r < grid_height g"
    and "column (tile_matrix g') c ! r = Some x"
    and "column (tile_matrix g') c ! Suc r = Some y"
    and "number x = number y"
  shows "column (tile_matrix g) c ! r = Some x \<and>
    (\<exists>v v'. Suc (Suc r) < grid_height g \<and>
       column (tile_matrix g) c ! Suc r = Some v \<and>
       column (tile_matrix g) c ! Suc (Suc r) = Some v' \<and>
       number v = number v' \<and> y = v\<lparr>number := number v * 2\<rparr>)"
proof -
  from assms(1) have shape: "has_shape (tile_matrix g) (grid_height g) (grid_width g)"
    by (simp add: shape_ok_def)
  then have len: "length (column (tile_matrix g) c) = grid_height g"
    by (auto dest: has_shapeD)
  from assms(2) have cols: "\<forall>c \<in> set columns. c < grid_width g"
    by (simp add: list_all_iff)
  from chain_loop_spec [OF shape cols assms(3), of False] assms(4,5) cols
  have "column (tile_matrix g') c = merged_column (column (tile_matrix g) c)"
    unfolding chain_bottom_up_merge_def by auto
  with merged_column_adjacent [of r "column (tile_matrix g) c" x y] assms(6-9) len
  show ?thesis by simp
qed

text \<open>
  The theorem of C4 on the column 4, 2, 2 (from the bottom): the pass leaves 4, 4 and an
  empty cell, and the upper 4 is the merged pair of 2s.
\<close>

theorem merge_pass_remaining_pairs_witness:
  "shape_ok \<lparr>grid_height = 3, grid_width = 1,
      tile_matrix = [[Some \<lparr>number = 4\<rparr>], [Some \<lparr>number = 2\<rparr>], [Some \<lparr>number = 2\<rparr>]],
      current_tetromino = None, game_over = False, score = 0\<rparr> \<and>
   list_all (\<lambda>c. c < 1) [0::nat] \<and> distinct [0::nat] \<and>
   chain_bottom_up_merge \<lparr>grid_height = 3, grid_width = 1,
      tile_matrix = [[Some \<lparr>number = 4\<rparr>], [Some \<lparr>number = 2\<rparr>], [Some \<lparr>number = 2\<rparr>]],
      current_tetromino = None, game_over = False, score = 0\<rparr> [0] =
     Some (\<lparr>grid_height = 3, grid_width = 1,
      tile_matrix = [[Some \<lparr>number = 4\<rparr>], [Some \<lparr>number = 4\<rparr>], [None]],
      current_tetromino = None, game_over = False, score = 4\<rparr>, True) \<and>
   column [[Some \<lparr>number = 4\<rparr>], [Some \<lparr>number = 2\<rparr>], [Some \<lparr>number = 2\<rparr>]] 0 ! 0 =
     Some \<lparr>number = 4\<rparr> \<and>
   (\<exists>v v'. Suc (Suc 0) < (3::nat) \<and>
       column [[Some \<lparr>number = 4\<rparr>], [Some \<lparr>number = 2\<rparr>], [Some \<lparr>number = 2\<rparr>]] 0 ! Suc 0 = Some v \<and>
       column [[Some \<lparr>number = 4\<rparr>], [Some \<lparr>number = 2\<rparr>], [Some \<lparr>number = 2\<rparr>]] 0 ! Suc (Suc 0) = Some v' \<and>
       number v = number v' \<and> \<lparr>number = 4\<rparr> = v\<lparr>number := number v * 2\<rparr>)"
proof -
  let ?g = "\<lparr>grid_height = 3, grid_width = 1,
      tile_matrix = [[Some \<lparr>number = 4\<rparr>], [Some \<lparr>number = 2\<rparr>], [Some \<lparr>number = 2\<rparr>]],
      current_tetromino = None, game_over = False, score = 0\<rparr>"
  let ?g' = "\<lparr>grid_height = 3, grid_width = 1,
      tile_matrix = [[Some \<lparr>number = 4\<rparr>], [Some \<lparr>number = 4\<rparr>], [None]],
      current_tetromino = None, game_over = False, score = 4\<rparr>"
  have h1: "shape_ok ?g" by (simp add: shape_ok_def has_shape_def)
  have h2: "list_all (\<lambda>c. c < grid_width ?g) [0::nat]" by simp
  have h3: "distinct [0::nat]" by simp
  have h4: "chain_bottom_up_merge ?g [0] = Some (?g', True)" by code_simp
  have h5: "0 \<in> set [0::nat]" by simp
  have h6: "Suc 0 < grid_height ?g" by simp
  have h7: "column (tile_matrix ?g') 0 ! 0 = Some \<lparr>number = 4\<rparr>" by (simp add: column_def)
  have h8: "column (tile_matrix ?g') 0 ! Suc 0 = Some \<lparr>number = 4\<rparr>" by (simp add: column_def)
  have h9: "number \<lparr>number = 4\<rparr> = number \<lparr>number = 4\<rparr>" by simp
  from merge_pass_remaining_pairs [OF h1 h2 h3 h4 h5 h6 h7 h8 h9] h1 h4
  show ?thesis by simp
qed

text \<open>
  Claim C4 as stated fails on the column 4, 2, 2: a merge is possible, and the single
  pass ends with the tiles 4 and 4 on the rows 0 and 1, adjacent, equal and unmerged.
\<close>

theorem merge_pass_leaves_pair_counterexample:
  "chain_bottom_up_merge \<lparr>grid_height = 3, grid_width = 1,
      tile_matrix = [[Some \<lparr>number = 4\<rparr>], [Some \<lparr>number = 2\<rparr>], [Some \<lparr>number = 2\<rparr>]],
      current_tetromino = None, game_over = False, score = 0\<rparr> [0] =
     Some (\<lparr>grid_height = 3, grid_width = 1,
      tile_matrix = [[Some \<lparr>number = 4\<rparr>], [Some \<lparr>number = 4\<rparr>], [None]],
      current_tetromino = None, game_over = False, score = 4\<rparr>, True)"
  by code_simp

text \<open>
  A pair that a merge pass leaves can outlast the whole call of \<open>update_grid\<close>. Column 0
  holds 2, 2, 8, 4 (from the bottom) and a 4 is locked on top. The first pass leaves 4,
  an empty cell, 8, 8; the gravity pass, which scans the column from the top, keeps the
  upper 8 and drops the lower one; the next pass finds 4, 8, an empty cell, 8, merges
  nothing and ends the loop; the last gravity pass drops the upper 8, and the call
  returns with the column 4, 8, 8: the two tiles of value 8 are adjacent and unmerged.
\<close>

lemma update_grid_keeps_new_pair:
  "update_grid
     \<lparr>grid_height = 6, grid_width = 2,
      tile_matrix = [[Some \<lparr>number = 2\<rparr>, None], [Some \<lparr>number = 2\<rparr>, None],
                     [Some \<lparr>number = 8\<rparr>, None], [Some \<lparr>number = 4\<rparr>, None],
                     [None, None], [None, None]],
      current_tetromino = None, game_over = False, score = 0\<rparr>
     [[Some \<lparr>number = 4\<rparr>]] \<lparr>point_x = 0, point_y = 4\<rparr> =
   Some (Some
    (\<lparr>grid_height = 6, grid_width = 2,
      tile_matrix = [[Some \<lparr>number = 4\<rparr>, None], [Some \<lparr>number = 8\<rparr>, None],
                     [Some \<lparr>number = 8\<rparr>, None], [None, None],
                     [None, None], [None, None]],
      current_tetromino = None, game_over = False, score = 12\<rparr>, False))"
  by code_simp

section \<open>The passes return on a well-shaped grid\<close>

lemma for_each_total:
  assumes "P s"
    and "\<And>x s. x \<in> set xs \<Longrightarrow> P s \<Longrightarrow> \<exists>s'. body x s = Some s' \<and> P s'"
  shows "\<exists>s'. for_each xs body s = Some s' \<and> P s'"
  using assms
proof (induction xs arbitrary: s)
  case Nil
  then show ?case by simp
next
  case (Cons x xs)
  from Cons.prems(2) [of x s] Cons.prems(1) obtain s1 where s1: "body x s = Some s1" "P s1"
    by auto
  have "\<exists>s'. for_each xs body s1 = Some s' \<and> P s'"
  proof (rule Cons.IH [OF s1(2)])
    fix y t
    assume "y \<in> set xs" "P t"
    with Cons.prems(2) [of y t] show "\<exists>s'. body y t = Some s' \<and> P s'" by simp
  qed
  with s1 show ?case by simp
qed

lemma set_concat_update:
  "set (concat (m[r := (m ! r)[c := v]])) \<subseteq> insert v (set (concat m))"
proof (cases "r < length m")
  case True
  have "set ((m ! r)[c := v]) \<subseteq> insert v (set (m ! r))" by (rule set_update_subset_insert)
  with True show ?thesis
    by (auto simp: set_conv_nth [of "m[r := (m ! r)[c := v]]"] nth_list_update
             split: if_splits)
next
  case False
  then have "length m \<le> r" by simp
  then have "m[r := (m ! r)[c := v]] = m" by (rule list_update_beyond)
  then show ?thesis by auto
qed

lemma find_dest_total:
  "has_shape m h w \<Longrightarrow> row \<le> h \<Longrightarrow> col < w \<Longrightarrow>
   \<exists>dest. find_dest m col row = Some dest \<and> dest \<le> row"
proof (induction row)
  case 0
  then show ?case by simp
next
  case (Suc d)
  from Suc.prems have "get_cell m d col = Some (m ! d ! col)"
    by (simp add: get_cell_shape)
  with Suc show ?case by (cases "m ! d ! col") auto
qed

lemma fall_cell_total:
  assumes m: "has_shape m h w" and v: "has_shape visited h w" and r: "row < h" and c: "col < w"
  shows "\<exists>m'. fall_cell visited col row m = Some m' \<and> has_shape m' h w \<and>
           set (concat m') \<subseteq> insert None (set (concat m))"
proof -
  from get_cell_shape [OF m r c] have g1: "get_cell m row col = Some (m ! row ! col)" .
  from get_cell_shape [OF v r c] have g2: "get_cell visited row col = Some (visited ! row ! col)" .
  from r find_dest_total [OF m _ c, of row] obtain dest where
    d: "find_dest m col row = Some dest" "dest \<le> row"
    by auto
  with r have dh: "dest < h" by simp
  define m1 where "m1 = m[dest := (m ! dest)[col := m ! row ! col]]"
  define m2 where "m2 = m1[row := (m1 ! row)[col := None]]"
  have s1: "set_cell m dest col (m ! row ! col) = Some m1"
    unfolding m1_def by (rule set_cell_shape [OF m dh c])
  have sh1: "has_shape m1 h w" unfolding m1_def by (rule has_shape_update [OF m])
  have s2: "set_cell m1 row col None = Some m2"
    unfolding m2_def by (rule set_cell_shape [OF sh1 r c])
  have sh2: "has_shape m2 h w" unfolding m2_def by (rule has_shape_update [OF sh1])
  from m r c have "m ! row ! col \<in> set (concat m)"
    by (auto dest!: has_shapeD simp: set_conv_nth [of m])
  with set_concat_update [of m dest col "m ! row ! col"]
  have sub1: "set (concat m1) \<subseteq> set (concat m)" by (auto simp: m1_def)
  from set_concat_update [of m1 row col None] sub1
  have sub2: "set (concat m2) \<subseteq> insert None (set (concat m))" by (auto simp: m2_def)
  from g1 g2 d s1 s2 m sh2 sub2 show ?thesis
    by (auto simp: fall_cell_def)
qed

lemma is_insideD:
  "is_inside g nr nc \<Longrightarrow> nat nr < grid_height g \<and> nat nc < grid_width g"
  by (auto simp: is_inside_def)

lemma visit_neighbour_total:
  assumes "shape_ok g" and "has_shape (fst s) (grid_height g) (grid_width g)"
  shows "\<exists>s'. visit_neighbour g p s = Some s' \<and>
           has_shape (fst s') (grid_height g) (grid_width g)"
proof -
  obtain nr nc where p: "p = (nr, nc)" by (cases p)
  obtain visited queue where s: "s = (visited, queue)" by (cases s)
  from assms(2) s have v: "has_shape visited (grid_height g) (grid_width g)" by simp
  from assms(1) have m: "has_shape (tile_matrix g) (grid_height g) (grid_width g)"
    by (simp add: shape_ok_def)
  show ?thesis
  proof (cases "is_inside g nr nc")
    case False
    with p s v show ?thesis by (simp add: visit_neighbour_def)
  next
    case True
    from is_insideD [OF True] have r: "nat nr < grid_height g" and c: "nat nc < grid_width g"
      by simp_all
    from True p s v get_cell_shape [OF v r c] get_cell_shape [OF m r c]
      set_cell_shape [OF v r c, of True] has_shape_update [OF v, of "nat nr" "nat nc" True]
    show ?thesis
      by (simp add: visit_neighbour_def)
  qed
qed

lemma bfs_total:
  "shape_ok g \<Longrightarrow> has_shape visited (grid_height g) (grid_width g) \<Longrightarrow>
   \<exists>visited'. bfs g visited queue = Some visited' \<and>
      has_shape visited' (grid_height g) (grid_width g)"
proof (induction g visited queue rule: bfs.induct)
  case (1 g visited)
  then show ?case by simp
next
  case (2 g visited r c queue)
  let ?P = "\<lambda>s. has_shape (fst s) (grid_height g) (grid_width g)"
  have "\<exists>s'. for_each (neighbours r c) (visit_neighbour g) (visited, queue) = Some s' \<and> ?P s'"
  proof (rule for_each_total [where P = ?P])
    from "2.prems"(2) show "?P (visited, queue)" by simp
  next
    fix x and s :: "bool list list \<times> (int \<times> int) list"
    assume "?P s"
    then show "\<exists>s'. visit_neighbour g x s = Some s' \<and> ?P s'"
      by (rule visit_neighbour_total [OF "2.prems"(1)])
  qed
  then obtain visited' queue' where
    step: "for_each (neighbours r c) (visit_neighbour g) (visited, queue) = Some (visited', queue')"
    and sh: "has_shape visited' (grid_height g) (grid_width g)"
    by auto
  from "2.IH" [OF step refl "2.prems"(1) sh] step show ?case by simp
qed

lemma seed_bottom_total:
  assumes "shape_ok g" and "0 < grid_height g" and "col < grid_width g"
    and "has_shape (fst s) (grid_height g) (grid_width g)"
  shows "\<exists>s'. seed_bottom g col s = Some s' \<and>
           has_shape (fst s') (grid_height g) (grid_width g)"
proof -
  obtain visited queue where s: "s = (visited, queue)" by (cases s)
  from assms(4) s have v: "has_shape visited (grid_height g) (grid_width g)" by simp
  from assms(1) have m: "has_shape (tile_matrix g) (grid_height g) (grid_width g)"
    by (simp add: shape_ok_def)
  from s v get_cell_shape [OF m assms(2,3)] set_cell_shape [OF v assms(2,3), of True]
    has_shape_update [OF v, of 0 col True]
  show ?thesis by (simp add: seed_bottom_def)
qed

lemma has_shape_replicate: "has_shape (replicate h (replicate w x)) h w"
  by (simp add: has_shape_def list_all_length)

lemma fall_total:
  assumes ok: "shape_ok g" and h: "0 < grid_height g"
  shows "\<exists>m'. fall_disconnected_tiles g = Some (g\<lparr>tile_matrix := m'\<rparr>) \<and>
           has_shape m' (grid_height g) (grid_width g) \<and>
           set (concat m') \<subseteq> insert None (set (concat (tile_matrix g)))"
proof -
  let ?h = "grid_height g" and ?w = "grid_width g"
  let ?S = "\<lambda>s. has_shape (fst s) ?h ?w"
  have "\<exists>s'. for_each [0..<?w] (seed_bottom g) (replicate ?h (replicate ?w False), []) = Some s' \<and> ?S s'"
  proof (rule for_each_total [where P = ?S])
    show "?S (replicate ?h (replicate ?w False), [])" by (simp add: has_shape_replicate)
  next
    fix x and s :: "bool list list \<times> (int \<times> int) list"
    assume "x \<in> set [0..<?w]" and S: "?S s"
    then have "x < ?w" by simp
    from seed_bottom_total [OF ok h this S]
    show "\<exists>s'. seed_bottom g x s = Some s' \<and> ?S s'" .
  qed
  then obtain visited0 queue where
    seed: "for_each [0..<?w] (seed_bottom g) (replicate ?h (replicate ?w False), []) =
             Some (visited0, queue)"
    and sh0: "has_shape visited0 ?h ?w"
    by auto
  from bfs_total [OF ok sh0, of queue] obtain visited where
    bfs: "bfs g visited0 queue = Some visited" and shv: "has_shape visited ?h ?w"
    by auto
  let ?M = "\<lambda>m. has_shape m ?h ?w \<and> set (concat m) \<subseteq> insert None (set (concat (tile_matrix g)))"
  have inner: "\<exists>m'. for_each (rev [0..<?h - 1]) (fall_cell visited col) m = Some m' \<and> ?M m'"
    if "col < ?w" and "?M m" for col m
  proof (rule for_each_total [where P = ?M, OF that(2)])
    fix row m1
    assume row: "row \<in> set (rev [0..<?h - 1])" and M: "?M m1"
    from row have r: "row < ?h" by simp
    from M have sh: "has_shape m1 ?h ?w" by simp
    from fall_cell_total [OF sh shv r that(1)] M
    show "\<exists>m'. fall_cell visited col row m1 = Some m' \<and> ?M m'" by blast
  qed
  from ok have M0: "?M (tile_matrix g)" by (auto simp: shape_ok_def)
  have "\<exists>m'. for_each [0..<?w]
          (\<lambda>col. for_each (rev [0..<?h - 1]) (fall_cell visited col)) (tile_matrix g) = Some m' \<and> ?M m'"
    by (rule for_each_total [where P = ?M, OF M0]) (use inner in simp)
  then obtain m' where "for_each [0..<?w]
          (\<lambda>col. for_each (rev [0..<?h - 1]) (fall_cell visited col)) (tile_matrix g) = Some m'"
    and "?M m'"
    by blast
  with seed bfs show ?thesis by (auto simp: fall_disconnected_tiles_def)
qed

lemma tiles_nonneg_concat: "tiles_nonneg m = (\<forall>t \<in> set (concat m). tile_nonneg t)"
  by (auto simp: tiles_nonneg_def list_all_iff)

lemma tiles_nonneg_cells:
  "has_shape m h w \<Longrightarrow> tiles_nonneg m = (\<forall>r < h. \<forall>c < w. tile_nonneg (m ! r ! c))"
  by (auto simp: tiles_nonneg_def list_all_length dest!: has_shapeD)

lemma tiles_nonneg_columns:
  assumes "has_shape m h w"
  shows "tiles_nonneg m = (\<forall>c < w. list_all tile_nonneg (column m c))"
proof -
  from assms have "length m = h" by (auto dest: has_shapeD)
  then have "(\<forall>c < w. list_all tile_nonneg (column m c)) = (\<forall>r < h. \<forall>c < w. tile_nonneg (m ! r ! c))"
    by (auto simp: list_all_length nth_column)
  with tiles_nonneg_cells [OF assms] show ?thesis by simp
qed

lemma merged_column_nonneg:
  "list_all tile_nonneg xs \<Longrightarrow>
   list_all tile_nonneg (merged_column xs) \<and> 0 \<le> merge_gain xs"
  by (induction xs rule: merged_column.induct) (auto simp: tile_nonneg_def)

lemma merge_count_length: "0 < merge_count xs \<Longrightarrow> xs \<noteq> []"
  by auto

lemma chain_nonneg:
  assumes shape: "has_shape m h w" and shape': "has_shape m' h w"
    and cols: "\<forall>c < w. column m' c = (if c \<in> set cols then merged_column (column m c) else column m c)"
    and nn: "tiles_nonneg m" and that: "\<forall>c \<in> set cols'. c < w"
  shows "tiles_nonneg m' \<and> 0 \<le> sum_list (map (\<lambda>c. merge_gain (column m c)) cols')"
proof -
  from nn tiles_nonneg_columns [OF shape] have cn: "\<forall>c < w. list_all tile_nonneg (column m c)"
    by simp
  with cols merged_column_nonneg have "\<forall>c < w. list_all tile_nonneg (column m' c)"
    by simp
  with tiles_nonneg_columns [OF shape'] have "tiles_nonneg m'" by simp
  moreover from cn that merged_column_nonneg
  have "0 \<le> sum_list (map (\<lambda>c. merge_gain (column m c)) cols')"
    by (intro sum_list_nonneg) auto
  ultimately show ?thesis by simp
qed

lemma follows_refl: "shape_ok g \<Longrightarrow> follows g g"
  by (simp add: follows_def)

lemma chain_follows:
  assumes f: "follows g0 g" and cols: "\<forall>c \<in> set cols. c < grid_width g0" and d: "distinct cols"
  shows "\<exists>g1. chain_bottom_up_merge g cols =
            Some (g1, \<exists>c \<in> set cols. 0 < merge_count (column (tile_matrix g) c)) \<and>
          follows g0 g1"
proof -
  from f have shape: "has_shape (tile_matrix g) (grid_height g) (grid_width g)"
    and w: "grid_width g = grid_width g0"
    by (auto simp: follows_def shape_ok_def)
  from cols w have cols': "\<forall>c \<in> set cols. c < grid_width g" by simp
  from chain_loop_spec [OF shape cols' d, of False] obtain g1 where
    run: "chain_bottom_up_merge g cols =
           Some (g1, \<exists>c \<in> set cols. 0 < merge_count (column (tile_matrix g) c))"
    and shape1: "has_shape (tile_matrix g1) (grid_height g) (grid_width g)"
    and same: "grid_height g1 = grid_height g" "grid_width g1 = grid_width g"
      "game_over g1 = game_over g" "current_tetromino g1 = current_tetromino g"
    and sc: "score g1 = score g + sum_list (map (\<lambda>c. merge_gain (column (tile_matrix g) c)) cols)"
    and cols1: "\<forall>c < grid_width g. column (tile_matrix g1) c =
            (if c \<in> set cols then merged_column (column (tile_matrix g) c)
             else column (tile_matrix g) c)"
    unfolding chain_bottom_up_merge_def by auto
  have "tiles_nonneg (tile_matrix g1) \<and> score g0 \<le> score g1" if nn0: "tiles_nonneg (tile_matrix g0)"
  proof -
    from f nn0 have nn: "tiles_nonneg (tile_matrix g)" and s: "score g0 \<le> score g"
      by (simp_all add: follows_def)
    from chain_nonneg [OF shape shape1 cols1 nn cols'] sc s show ?thesis by simp
  qed
  with f shape1 same have "follows g0 g1" by (simp add: follows_def shape_ok_def)
  with run show ?thesis by blast
qed

lemma fall_follows:
  assumes f: "follows g0 g" and h: "0 < grid_height g"
  shows "\<exists>g2. fall_disconnected_tiles g = Some g2 \<and> follows g0 g2 \<and> score g2 = score g"
proof -
  from f have ok: "shape_ok g" by (simp add: follows_def)
  from fall_total [OF ok h] obtain m' where
    run: "fall_disconnected_tiles g = Some (g\<lparr>tile_matrix := m'\<rparr>)"
    and shape: "has_shape m' (grid_height g) (grid_width g)"
    and sub: "set (concat m') \<subseteq> insert None (set (concat (tile_matrix g)))"
    by blast
  from sub have "tiles_nonneg (tile_matrix g) \<Longrightarrow> tiles_nonneg m'"
    by (auto simp: tiles_nonneg_concat tile_nonneg_def)
  with f shape have "follows g0 (g\<lparr>tile_matrix := m'\<rparr>)"
    by (auto simp: follows_def shape_ok_def)
  with run show ?thesis by simp
qed

lemma merged_column_keeps_tile:
  "0 < merge_count xs \<Longrightarrow> \<exists>t. Some t \<in> set (merged_column xs)"
  by (induction xs rule: merged_column.induct) (auto split: if_splits)

lemma occupied_count_column:
  assumes "has_shape m h w" and "c < w" and "Some t \<in> set (column m c)"
  shows "0 < occupied_count m"
proof -
  from assms(3) obtain r where r: "r < length m" and t: "m ! r ! c = Some t"
    by (auto simp: column_def in_set_conv_nth)
  from assms(1,2) r have "c < length (m ! r)" by (auto dest: has_shapeD)
  with r t have "Some t \<in> set (concat m)"
    by (auto simp: in_set_conv_nth [of _ m]) (metis nth_mem)
  then have "filter (\<lambda>t. t \<noteq> None) (concat m) \<noteq> []"
    by (auto simp: filter_empty_conv)
  then show ?thesis by (simp add: occupied_count_def)
qed

lemma merge_settle_loop_follows:
  assumes "follows g0 g" and "\<forall>c \<in> set cols. c < grid_width g0" and "distinct cols"
  shows "\<exists>g' k. merge_settle_loop g cols = Some (g', k) \<and> follows g0 g' \<and>
           Suc k \<le> max 1 (occupied_count (tile_matrix g))"
  using assms
proof (induction g cols rule: merge_settle_loop.induct)
  case (1 g cols)
  note unf = merge_settle_loop.simps [of g cols]
  from chain_follows [OF "1.prems"] obtain g1 where
    run: "chain_bottom_up_merge g cols =
            Some (g1, \<exists>c \<in> set cols. 0 < merge_count (column (tile_matrix g) c))"
    and f1: "follows g0 g1"
    by blast
  show ?case
  proof (cases "\<exists>c \<in> set cols. 0 < merge_count (column (tile_matrix g) c)")
    case False
    with run f1 show ?thesis by (simp add: unf)
  next
    case True
    then obtain c where c: "c \<in> set cols" "0 < merge_count (column (tile_matrix g) c)" by blast
    then have "column (tile_matrix g) c \<noteq> []" by auto
    then have "0 < length (tile_matrix g)" by (simp add: column_def)
    moreover from "1.prems"(1) have "length (tile_matrix g) = grid_height g"
      by (auto simp: follows_def shape_ok_def dest: has_shapeD)
    ultimately have "0 < grid_height g" by simp
    with f1 "1.prems"(1) have h1: "0 < grid_height g1" by (simp add: follows_def)
    from fall_follows [OF f1 h1] obtain g2 where
      fall: "fall_disconnected_tiles g1 = Some g2" and f2: "follows g0 g2"
      by blast
    from run True have run': "chain_bottom_up_merge g cols = Some (g1, True)" by simp
    from "1.IH" [OF run' refl _ fall f2 "1.prems"(2,3)] obtain g' k where
      rec: "merge_settle_loop g2 cols = Some (g', k)" and f': "follows g0 g'"
      and k: "Suc k \<le> max 1 (occupied_count (tile_matrix g2))"
      by auto
    from "1.prems"(1) have shape: "has_shape (tile_matrix g) (grid_height g) (grid_width g)"
      and w: "grid_width g = grid_width g0"
      by (auto simp: follows_def shape_ok_def)
    from "1.prems"(2) w have cols': "\<forall>c \<in> set cols. c < grid_width g" by simp
    from chain_loop_spec [OF shape cols' "1.prems"(3), of False] run' c(1) cols'
    have shape1: "has_shape (tile_matrix g1) (grid_height g) (grid_width g)"
      and col1: "column (tile_matrix g1) c = merged_column (column (tile_matrix g) c)"
      unfolding chain_bottom_up_merge_def by auto
    from merged_column_keeps_tile [OF c(2)] col1 obtain t where
      "Some t \<in> set (column (tile_matrix g1) c)"
      by auto
    from occupied_count_column [OF shape1 _ this] c(1) cols'
    have pos: "0 < occupied_count (tile_matrix g1)" by simp
    from chain_occupied [OF run'] fall_occupied [OF fall] k pos
    have "Suc (Suc k) \<le> max 1 (occupied_count (tile_matrix g))" by simp
    with run' fall rec f' show ?thesis by (simp add: unf)
  qed
qed

section \<open>Termination of the merge-settle loop\<close>

text \<open>
  Claim C10. On a grid of the constructor's shape and a set of columns of the grid, the
  merge-settle loop of \<open>update_grid\<close> returns. A merge pass that reports a merge leaves
  fewer occupied cells than it found, the gravity pass (which returns on a grid with at
  least one row) leaves as many as it found, and so the number \<open>k\<close> of iterations that
  merge and settle is at most the initial number of occupied cells; counting the last
  pass, which finds nothing to merge, the loop makes \<open>k + 1\<close> passes, at most the initial
  number of occupied cells when the grid holds a tile.
\<close>

theorem merge_settle_loop_terminates:
  assumes "shape_ok g" and "list_all (\<lambda>c. c < grid_width g) affected_cols"
    and "distinct affected_cols"
  shows "(\<exists>g' k. merge_settle_loop g affected_cols = Some (g', k) \<and>
            k \<le> occupied_count (tile_matrix g) \<and>
            Suc k \<le> max 1 (occupied_count (tile_matrix g))) \<and>
         (\<forall>g1. chain_bottom_up_merge g affected_cols = Some (g1, True) \<longrightarrow>
            occupied_count (tile_matrix g1) < occupied_count (tile_matrix g)) \<and>
         (0 < grid_height g \<longrightarrow> (\<exists>g2. fall_disconnected_tiles g = Some g2)) \<and>
         (\<forall>g2. fall_disconnected_tiles g = Some g2 \<longrightarrow>
            occupied_count (tile_matrix g2) = occupied_count (tile_matrix g))"
proof -
  from assms(2) have cols: "\<forall>c \<in> set affected_cols. c < grid_width g"
    by (simp add: list_all_iff)
  from merge_settle_loop_follows [OF follows_refl [OF assms(1)] cols assms(3)]
  obtain g' k where "merge_settle_loop g affected_cols = Some (g', k)"
    and "Suc k \<le> max 1 (occupied_count (tile_matrix g))"
    by blast
  then have "\<exists>g' k. merge_settle_loop g affected_cols = Some (g', k) \<and>
            k \<le> occupied_count (tile_matrix g) \<and>
            Suc k \<le> max 1 (occupied_count (tile_matrix g))"
    by (intro exI [of _ g'] exI [of _ k]) auto
  moreover have "\<forall>g1. chain_bottom_up_merge g affected_cols = Some (g1, True) \<longrightarrow>
            occupied_count (tile_matrix g1) < occupied_count (tile_matrix g)"
    using chain_occupied by blast
  moreover have "0 < grid_height g \<longrightarrow> (\<exists>g2. fall_disconnected_tiles g = Some g2)"
    using fall_total [OF assms(1)] by blast
  moreover have "\<forall>g2. fall_disconnected_tiles g = Some g2 \<longrightarrow>
            occupied_count (tile_matrix g2) = occupied_count (tile_matrix g)"
    using fall_occupied by blast
  ultimately show ?thesis by blast
qed

text \<open>
  The theorem of C10 on the column 2, 2, 4 under an empty cell: two iterations merge and
  settle (2 + 2, then 4 + 4), the third pass finds nothing, and three tiles were there.
\<close>

theorem merge_settle_loop_terminates_witness:
  "shape_ok \<lparr>grid_height = 4, grid_width = 1,
      tile_matrix = [[Some \<lparr>number = 2\<rparr>], [Some \<lparr>number = 2\<rparr>], [Some \<lparr>number = 4\<rparr>], [None]],
      current_tetromino = None, game_over = False, score = 0\<rparr> \<and>
   list_all (\<lambda>c. c < 1) [0::nat] \<and> distinct [0::nat] \<and>
   merge_settle_loop \<lparr>grid_height = 4, grid_width = 1,
      tile_matrix = [[Some \<lparr>number = 2\<rparr>], [Some \<lparr>number = 2\<rparr>], [Some \<lparr>number = 4\<rparr>], [None]],
      current_tetromino = None, game_over = False, score = 0\<rparr> [0] =
     Some (\<lparr>grid_height = 4, grid_width = 1,
      tile_matrix = [[Some \<lparr>number = 8\<rparr>], [None], [None], [None]],
      current_tetromino = None, game_over = False, score = 12\<rparr>, 2) \<and>
   (\<exists>g' k. merge_settle_loop \<lparr>grid_height = 4, grid_width = 1,
      tile_matrix = [[Some \<lparr>number = 2\<rparr>], [Some \<lparr>number = 2\<rparr>], [Some \<lparr>number = 4\<rparr>], [None]],
      current_tetromino = None, game_over = False, score = 0\<rparr> [0] = Some (g', k) \<and>
      k \<le> 3 \<and> Suc k \<le> max 1 3)"
proof -
  let ?g = "\<lparr>grid_height = 4, grid_width = 1,
      tile_matrix = [[Some \<lparr>number = 2\<rparr>], [Some \<lparr>number = 2\<rparr>], [Some \<lparr>number = 4\<rparr>], [None]],
      current_tetromino = None, game_over = False, score = 0\<rparr>"
  have h1: "shape_ok ?g" by (simp add: shape_ok_def has_shape_def)
  have h2: "list_all (\<lambda>c. c < grid_width ?g) [0::nat]" by simp
  have h3: "distinct [0::nat]" by simp
  have run: "merge_settle_loop ?g [0] =
     Some (\<lparr>grid_height = 4, grid_width = 1,
      tile_matrix = [[Some \<lparr>number = 8\<rparr>], [None], [None], [None]],
      current_tetromino = None, game_over = False, score = 12\<rparr>, 2)"
    by code_simp
  have occ: "occupied_count (tile_matrix ?g) = 3" by (simp add: occupied_count_def)
  from merge_settle_loop_terminates [OF h1 h2 h3] occ
  have "\<exists>g' k. merge_settle_loop ?g [0] = Some (g', k) \<and> k \<le> 3 \<and> Suc k \<le> max 1 3"
    by simp
  with h1 run show ?thesis by simp
qed

section \<open>Clearing the full rows\<close>

lemma get_row_shape: "has_shape m h w \<Longrightarrow> r < h \<Longrightarrow> get_row m r = Some (m ! r)"
  by (auto simp: get_row_def dest: has_shapeD)

lemma set_row_shape:
  "has_shape m h w \<Longrightarrow> r < h \<Longrightarrow> length row = w \<Longrightarrow> set_row m r row = Some (m[r := row])"
  by (auto simp: set_row_def dest: has_shapeD)

lemma has_shape_row_update:
  "has_shape m h w \<Longrightarrow> length row = w \<Longrightarrow> has_shape (m[r := row]) h w"
  by (cases "r < length m") (auto intro!: has_shapeI dest!: has_shapeD simp: nth_list_update)

lemma shift_rows_spec:
  assumes "has_shape m (Suc n) w" and "k \<le> n"
  shows "for_each [k..<n] shift_row m = Some (take k m @ drop (Suc k) m @ [m ! n])"
  using assms
proof (induction "n - k" arbitrary: k m)
  case 0
  then have k: "k = n" by simp
  from "0.prems" have len: "length m = Suc n" by (auto dest: has_shapeD)
  then have "take n m @ [m ! n] = m"
    by (simp add: take_Suc_conv_app_nth [symmetric])
  with k len show ?case by simp
next
  case (Suc d)
  then have k1: "Suc k < Suc n" and kk: "k < n" and k0: "k < Suc n" by simp_all
  from Suc.prems have len: "length m = Suc n" by (auto dest: has_shapeD)
  from Suc.prems(1) k1 have lrow: "length (m ! Suc k) = w" by (auto dest: has_shapeD)
  define m1 where "m1 = m[k := m ! Suc k]"
  from get_row_shape [OF Suc.prems(1) k1] set_row_shape [OF Suc.prems(1) k0 lrow]
  have step: "shift_row k m = Some m1" by (simp add: shift_row_def m1_def)
  from has_shape_row_update [OF Suc.prems(1) lrow] have sh1: "has_shape m1 (Suc n) w"
    by (simp add: m1_def)
  from Suc.hyps(2) have d: "d = n - Suc k" by simp
  from kk have le: "Suc k \<le> n" by simp
  from Suc.hyps(1) [OF d sh1 le]
  have ih: "for_each [Suc k..<n] shift_row m1 =
      Some (take (Suc k) m1 @ drop (Suc (Suc k)) m1 @ [m1 ! n])" .
  from k1 len have t: "take (Suc k) m1 = take k m @ [m ! Suc k]"
    by (simp add: m1_def take_Suc_conv_app_nth)
  from k1 len have dr: "drop (Suc k) m = m ! Suc k # drop (Suc (Suc k)) m"
    by (simp add: Cons_nth_drop_Suc)
  have dr1: "drop (Suc (Suc k)) m1 = drop (Suc (Suc k)) m" by (simp add: m1_def)
  from kk have upt: "[k..<n] = k # [Suc k..<n]" by (simp add: upt_conv_Cons)
  from kk have last: "m1 ! n = m ! n" by (simp add: m1_def)
  from step ih show ?case by (simp add: upt t dr dr1 last)
qed

lemma shift_down_above_row_spec:
  assumes "shape_ok g" and "row_index < grid_height g"
  shows "shift_down_above_row g row_index =
     Some (g\<lparr>tile_matrix := take row_index (tile_matrix g) @ drop (Suc row_index) (tile_matrix g) @
                              [replicate (grid_width g) None]\<rparr>)"
proof -
  let ?m = "tile_matrix g" and ?w = "grid_width g"
  from assms(2) obtain n where n: "grid_height g = Suc n" by (cases "grid_height g") auto
  from assms(1) n have shape: "has_shape ?m (Suc n) ?w" by (simp add: shape_ok_def)
  then have len: "length ?m = Suc n" by (auto dest: has_shapeD)
  from assms(2) n have le: "row_index \<le> n" by simp
  define m1 where "m1 = take row_index ?m @ drop (Suc row_index) ?m @ [?m ! n]"
  from shift_rows_spec [OF shape le]
  have loop: "for_each [row_index..<n] shift_row ?m = Some m1" by (simp add: m1_def)
  from le len have len1: "length m1 = Suc n" by (simp add: m1_def)
  from len have "?m ! n \<in> set ?m" by simp
  then have "set m1 \<subseteq> set ?m"
    by (auto simp: m1_def dest: in_set_takeD in_set_dropD)
  with shape len1 have sh1: "has_shape m1 (Suc n) ?w"
    by (auto simp: has_shape_def list_all_iff)
  from set_row_shape [OF sh1, of n "replicate ?w None"]
  have "set_row m1 n (replicate ?w None) = Some (m1[n := replicate ?w None])"
    by simp
  moreover from le len
  have "m1[n := replicate ?w None] =
        take row_index ?m @ drop (Suc row_index) ?m @ [replicate ?w None]"
    by (simp add: m1_def list_update_append min_def)
  ultimately show ?thesis using loop n by (simp add: shift_down_above_row_def)
qed

lemma empty_row_not_full: "0 < w \<Longrightarrow> \<not> full_row (replicate w None)"
  by (simp add: full_row_def)

lemma rows_cleared_Cons_not:
  "\<not> full_row x \<Longrightarrow> rows_cleared w (x # xs) = x # rows_cleared w xs"
  by (simp add: rows_cleared_def)

lemma rows_cleared_shift:
  "0 < w \<Longrightarrow> full_row x \<Longrightarrow>
   rows_cleared w (xs @ [replicate w None]) = rows_cleared w (x # xs)"
  by (simp add: rows_cleared_def empty_row_not_full replicate_append_same)

lemma clear_rows_loop_spec:
  assumes "shape_ok g" and "0 < grid_width g" and "row \<le> grid_height g"
  shows "clear_rows_loop row cc cs g =
     Some (Some (g\<lparr>tile_matrix := take row (tile_matrix g) @
                      rows_cleared (grid_width g) (drop row (tile_matrix g))\<rparr>,
                 cc \<union> (if \<exists>tiles \<in> set (drop row (tile_matrix g)). full_row tiles
                       then set [0..<grid_width g] else {}),
                 cs + sum_list (map row_score (filter full_row (drop row (tile_matrix g))))))"
  using assms
proof (induction "length (filter full_row (drop row (tile_matrix g))) + (grid_height g - row)"
       arbitrary: row g cc cs rule: less_induct)
  case less
  let ?m = "tile_matrix g" and ?h = "grid_height g" and ?w = "grid_width g"
  note unf = clear_rows_loop.simps [of row cc cs g]
  from less.prems(1) have shape: "has_shape ?m ?h ?w" by (simp add: shape_ok_def)
  then have len: "length ?m = ?h" by (auto dest: has_shapeD)
  show ?case
  proof (cases "row < ?h")
    case False
    then have "clear_rows_loop row cc cs g = Some (Some (g, cc, cs))"
      by (subst unf) simp
    with False less.prems(3) len show ?thesis by (simp add: rows_cleared_def)
  next
    case True
    from get_row_shape [OF shape True] have row: "get_row ?m row = Some (?m ! row)" .
    from True len have dr: "drop row ?m = ?m ! row # drop (Suc row) ?m"
      by (simp add: Cons_nth_drop_Suc)
    show ?thesis
    proof (cases "full_row (?m ! row)")
      case False
      then have nf: "\<not> None \<notin> set (?m ! row)" by (simp add: full_row_def)
      from True have le: "Suc row \<le> ?h" by simp
      from False True dr
      have "length (filter full_row (drop (Suc row) ?m)) + (?h - Suc row)
            < length (filter full_row (drop row ?m)) + (?h - row)"
        by simp
      from less.hyps [OF this less.prems(1,2) le, of cc cs]
      have ih: "clear_rows_loop (Suc row) cc cs g =
        Some (Some (g\<lparr>tile_matrix := take (Suc row) ?m @ rows_cleared ?w (drop (Suc row) ?m)\<rparr>,
                 cc \<union> (if \<exists>tiles \<in> set (drop (Suc row) ?m). full_row tiles
                       then set [0..<?w] else {}),
                 cs + sum_list (map row_score (filter full_row (drop (Suc row) ?m)))))" .
      from True row nf have "clear_rows_loop row cc cs g = clear_rows_loop (Suc row) cc cs g"
        by (simp add: unf)
      with ih True len False show ?thesis
        by (simp add: dr rows_cleared_Cons_not take_Suc_conv_app_nth)
    next
      case full: True
      then have f: "None \<notin> set (?m ! row)" by (simp add: full_row_def)
      define g' where "g' = g\<lparr>tile_matrix := take row ?m @ drop (Suc row) ?m @ [replicate ?w None]\<rparr>"
      from shift_down_above_row_spec [OF less.prems(1) True]
      have shift: "shift_down_above_row g row = Some g'" by (simp add: g'_def)
      have m': "tile_matrix g' = take row ?m @ drop (Suc row) ?m @ [replicate ?w None]"
        and dims: "grid_height g' = ?h" "grid_width g' = ?w"
        by (simp_all add: g'_def)
      from True len have len': "length (tile_matrix g') = ?h" by (simp add: m')
      have "set (tile_matrix g') \<subseteq> insert (replicate ?w None) (set ?m)"
        by (auto simp: m' dest: in_set_takeD in_set_dropD)
      with shape len' dims have ok': "shape_ok g'"
        by (auto simp: shape_ok_def has_shape_def list_all_iff)
      from True len have t': "take row (tile_matrix g') = take row ?m"
        and d': "drop row (tile_matrix g') = drop (Suc row) ?m @ [replicate ?w None]"
        by (simp_all add: m')
      from less.prems(2) have nfe: "\<not> full_row (replicate ?w None)"
        by (rule empty_row_not_full)
      from full dr nfe
      have "length (filter full_row (drop row (tile_matrix g'))) + (grid_height g' - row)
            < length (filter full_row (drop row ?m)) + (?h - row)"
        by (simp add: d' dims)
      from less.hyps [OF this ok' _ _, of "cc \<union> set [0..<?w]" "cs + row_score (?m ! row)"]
        less.prems(2,3) dims
      have ih: "clear_rows_loop row (cc \<union> set [0..<?w]) (cs + row_score (?m ! row)) g' =
        Some (Some (g'\<lparr>tile_matrix := take row (tile_matrix g') @
                          rows_cleared ?w (drop row (tile_matrix g'))\<rparr>,
                 (cc \<union> set [0..<?w]) \<union>
                      (if \<exists>tiles \<in> set (drop row (tile_matrix g')). full_row tiles
                       then set [0..<?w] else {}),
                 (cs + row_score (?m ! row)) +
                      sum_list (map row_score (filter full_row (drop row (tile_matrix g'))))))"
        by simp
      from True row f shift
      have "clear_rows_loop row cc cs g =
            clear_rows_loop row (cc \<union> set [0..<?w]) (cs + row_score (?m ! row)) g'"
        by (simp add: unf)
      moreover have "g'\<lparr>tile_matrix := X\<rparr> = g\<lparr>tile_matrix := X\<rparr>" for X
        by (simp add: g'_def)
      moreover note ih [unfolded t' d'] rows_cleared_shift [OF less.prems(2) full, of "drop (Suc row) ?m"]
      ultimately show ?thesis using full nfe
        by (auto simp: dr)
    qed
  qed
qed

text \<open>
  Claim C5. On a grid of the constructor's shape with at least one column, the clearing
  phase returns: the rows that are full are removed, the rows above them move down and
  empty rows fill the top (however the full rows are stacked), and the score grows by the
  sum of the tile values of the removed rows. The removal of the row \<open>row\<close> is the shift
  of every row above it down by one with an empty top row, and the loop tests the same
  index again after a removal and the next index otherwise.
\<close>

theorem clear_full_rows_correct:
  assumes "shape_ok g" and "0 < grid_width g"
  shows "clear_full_rows_return_columns g =
     Some (Some (g\<lparr>tile_matrix := rows_cleared (grid_width g) (tile_matrix g),
                   score := score g + sum_list (map row_score (filter full_row (tile_matrix g)))\<rparr>,
                 if \<exists>tiles \<in> set (tile_matrix g). full_row tiles
                 then set [0..<grid_width g] else {})) \<and>
    (\<forall>row < grid_height g.
       shift_down_above_row g row =
         Some (g\<lparr>tile_matrix := take row (tile_matrix g) @ drop (Suc row) (tile_matrix g) @
                                  [replicate (grid_width g) None]\<rparr>) \<and>
       (\<forall>cc cs. clear_rows_loop row cc cs g =
          (if full_row (tile_matrix g ! row)
           then clear_rows_loop row (cc \<union> set [0..<grid_width g])
                  (cs + row_score (tile_matrix g ! row))
                  (g\<lparr>tile_matrix := take row (tile_matrix g) @ drop (Suc row) (tile_matrix g) @
                                       [replicate (grid_width g) None]\<rparr>)
           else clear_rows_loop (Suc row) cc cs g)))"
proof -
  from clear_rows_loop_spec [OF assms, of 0 "{}" 0]
  have "clear_full_rows_return_columns g =
     Some (Some (g\<lparr>tile_matrix := rows_cleared (grid_width g) (tile_matrix g),
                   score := score g + sum_list (map row_score (filter full_row (tile_matrix g)))\<rparr>,
                 if \<exists>tiles \<in> set (tile_matrix g). full_row tiles
                 then set [0..<grid_width g] else {}))"
    by (simp add: clear_full_rows_return_columns_def)
  moreover have "shift_down_above_row g row =
         Some (g\<lparr>tile_matrix := take row (tile_matrix g) @ drop (Suc row) (tile_matrix g) @
                                  [replicate (grid_width g) None]\<rparr>) \<and>
       (\<forall>cc cs. clear_rows_loop row cc cs g =
          (if full_row (tile_matrix g ! row)
           then clear_rows_loop row (cc \<union> set [0..<grid_width g])
                  (cs + row_score (tile_matrix g ! row))
                  (g\<lparr>tile_matrix := take row (tile_matrix g) @ drop (Suc row) (tile_matrix g) @
                                       [replicate (grid_width g) None]\<rparr>)
           else clear_rows_loop (Suc row) cc cs g))"
    if row: "row < grid_height g" for row
  proof -
    from assms(1) have shape: "has_shape (tile_matrix g) (grid_height g) (grid_width g)"
      by (simp add: shape_ok_def)
    note shift = shift_down_above_row_spec [OF assms(1) row]
    from get_row_shape [OF shape row] row shift
    have "clear_rows_loop row cc cs g =
          (if full_row (tile_matrix g ! row)
           then clear_rows_loop row (cc \<union> set [0..<grid_width g])
                  (cs + row_score (tile_matrix g ! row))
                  (g\<lparr>tile_matrix := take row (tile_matrix g) @ drop (Suc row) (tile_matrix g) @
                                       [replicate (grid_width g) None]\<rparr>)
           else clear_rows_loop (Suc row) cc cs g)" for cc cs
      by (subst clear_rows_loop.simps) (simp add: full_row_def)
    with shift show ?thesis by blast
  qed
  ultimately show ?thesis by blast
qed

text \<open>
  The theorem of C5 on a board of two columns whose two lowest rows are full, under a
  row with one tile: both rows go, the third row lands on the floor, and the score
  grows by 2 + 4 + 8 + 2 = 16.
\<close>

theorem clear_full_rows_correct_witness:
  "shape_ok \<lparr>grid_height = 3, grid_width = 2,
      tile_matrix = [[Some \<lparr>number = 2\<rparr>, Some \<lparr>number = 4\<rparr>],
                     [Some \<lparr>number = 8\<rparr>, Some \<lparr>number = 2\<rparr>],
                     [Some \<lparr>number = 4\<rparr>, None]],
      current_tetromino = None, game_over = False, score = 0\<rparr> \<and>
   (0::nat) < 2 \<and>
   clear_full_rows_return_columns \<lparr>grid_height = 3, grid_width = 2,
      tile_matrix = [[Some \<lparr>number = 2\<rparr>, Some \<lparr>number = 4\<rparr>],
                     [Some \<lparr>number = 8\<rparr>, Some \<lparr>number = 2\<rparr>],
                     [Some \<lparr>number = 4\<rparr>, None]],
      current_tetromino = None, game_over = False, score = 0\<rparr> =
     Some (Some (\<lparr>grid_height = 3, grid_width = 2,
      tile_matrix = [[Some \<lparr>number = 4\<rparr>, None], [None, None], [None, None]],
      current_tetromino = None, game_over = False, score = 16\<rparr>, {0, 1}))"
proof -
  let ?g = "\<lparr>grid_height = 3, grid_width = 2,
      tile_matrix = [[Some \<lparr>number = 2\<rparr>, Some \<lparr>number = 4\<rparr>],
                     [Some \<lparr>number = 8\<rparr>, Some \<lparr>number = 2\<rparr>],
                     [Some \<lparr>number = 4\<rparr>, None]],
      current_tetromino = None, game_over = False, score = 0\<rparr>"
  have h1: "shape_ok ?g" by (simp add: shape_ok_def has_shape_def)
  have h2: "0 < grid_width ?g" by simp
  have s: "set [0..<2] = {0::nat, 1}" by (auto simp: upt_conv_Cons)
  from clear_full_rows_correct [OF h1 h2] h1 s show ?thesis
    by (simp add: rows_cleared_def full_row_def row_score_def numeral_eq_Suc)
qed

section \<open>Locking and resolving\<close>

lemma for_each_append:
  "for_each (xs @ ys) body s =
     (case for_each xs body s of None \<Rightarrow> None | Some s' \<Rightarrow> for_each ys body s')"
  by (induction xs arbitrary: s) (auto split: option.splits)

lemma for_each_map: "for_each (map f xs) body s = for_each xs (\<lambda>x. body (f x)) s"
  by (induction xs arbitrary: s) (auto split: option.splits)

lemma for_each_nested:
  "for_each xs (\<lambda>x. for_each ys (f x)) s =
   for_each (List.product xs ys) (\<lambda>(x, y). f x y) s"
  by (induction xs arbitrary: s) (auto simp: for_each_append for_each_map split: option.splits)

lemma set_occupied_list:
  "has_shape m h w \<Longrightarrow>
   set (occupied_list m) = {(r, c). r < h \<and> c < w \<and> m ! r ! c \<noteq> None}"
  by (auto simp: occupied_list_def dest!: has_shapeD)

lemma tiles_nonneg_update:
  "tiles_nonneg m \<Longrightarrow> tile_nonneg v \<Longrightarrow> tiles_nonneg (m[r := (m ! r)[c := v]])"
  using set_concat_update [of m r c v] by (auto simp: tiles_nonneg_concat)

lemma lock_cells_spec:
  assumes tiles: "has_shape tiles nr nc"
    and cells: "\<forall>(col, row) \<in> set cells. row < nr \<and> col < nc"
    and ok: "shape_ok g"
  shows "\<exists>g' aff'.
     for_each cells (\<lambda>(col, row). lock_cell tiles blc n_rows col row) (g, aff) = Some (g', aff') \<and>
     shape_ok g' \<and> grid_height g' = grid_height g \<and> grid_width g' = grid_width g \<and>
     score g' = score g \<and> current_tetromino g' = current_tetromino g \<and>
     game_over g' =
       (game_over g \<or>
        (\<exists>(col, row) \<in> set cells. tiles ! row ! col \<noteq> None \<and>
           \<not> is_inside g (point_y blc + (int n_rows - 1 - int row)) (point_x blc + int col))) \<and>
     ((\<forall>c \<in> set aff. c < grid_width g) \<longrightarrow> (\<forall>c \<in> set aff'. c < grid_width g)) \<and>
     (distinct aff \<longrightarrow> distinct aff') \<and>
     (tiles_nonneg tiles \<and> tiles_nonneg (tile_matrix g) \<longrightarrow> tiles_nonneg (tile_matrix g'))"
  using cells ok
proof (induction cells arbitrary: g aff)
  case Nil
  then show ?case by simp
next
  case (Cons cell cells)
  obtain col row where cell: "cell = (col, row)" by (cases cell)
  with Cons.prems(1) have row: "row < nr" and col: "col < nc" by simp_all
  from Cons.prems(1) have rest: "\<forall>(col, row) \<in> set cells. row < nr \<and> col < nc" by simp
  let ?y = "point_y blc + (int n_rows - 1 - int row)" and ?x = "point_x blc + int col"
  let ?t = "tiles ! row ! col"
  from get_cell_shape [OF tiles row col] have rd: "get_cell tiles row col = Some ?t" .
  from Cons.prems(2) have shape: "has_shape (tile_matrix g) (grid_height g) (grid_width g)"
    by (simp add: shape_ok_def)
  define g1 where "g1 =
     (if ?t = None then g
      else if is_inside g ?y ?x
        then g\<lparr>tile_matrix := (tile_matrix g)[nat ?y := (tile_matrix g ! nat ?y)[nat ?x := ?t]]\<rparr>
        else g\<lparr>game_over := True\<rparr>)"
  define aff1 where "aff1 =
     (if ?t \<noteq> None \<and> is_inside g ?y ?x then List.insert (nat ?x) aff else aff)"
  have step: "lock_cell tiles blc n_rows col row (g, aff) = Some (g1, aff1)"
  proof (cases "?t \<noteq> None \<and> is_inside g ?y ?x")
    case True
    then have "nat ?y < grid_height g" "nat ?x < grid_width g" by (auto dest: is_insideD)
    from set_cell_shape [OF shape this, of ?t] True rd show ?thesis
      by (auto simp: lock_cell_def g1_def aff1_def Let_def)
  next
    case False
    with rd show ?thesis by (auto simp: lock_cell_def g1_def aff1_def Let_def)
  qed
  have ok1: "shape_ok g1"
    using Cons.prems(2) has_shape_update [OF shape, of "nat ?y" "nat ?x" ?t]
    by (simp add: g1_def shape_ok_def)
  have dims: "grid_height g1 = grid_height g" "grid_width g1 = grid_width g"
    "score g1 = score g" "current_tetromino g1 = current_tetromino g"
    by (simp_all add: g1_def)
  have over1: "game_over g1 = (game_over g \<or> (?t \<noteq> None \<and> \<not> is_inside g ?y ?x))"
    by (simp add: g1_def)
  have inside1: "is_inside g1 y x = is_inside g y x" for y x
    by (simp add: is_inside_def dims)
  have aff1_in: "(\<forall>c \<in> set aff. c < grid_width g) \<longrightarrow> (\<forall>c \<in> set aff1. c < grid_width g)"
    by (auto simp: aff1_def dest: is_insideD)
  have aff1_d: "distinct aff \<longrightarrow> distinct aff1" by (simp add: aff1_def)
  have nn1: "tiles_nonneg tiles \<and> tiles_nonneg (tile_matrix g) \<longrightarrow> tiles_nonneg (tile_matrix g1)"
  proof
    assume a: "tiles_nonneg tiles \<and> tiles_nonneg (tile_matrix g)"
    with tiles_nonneg_cells [OF tiles] row col have "tile_nonneg ?t" by simp
    with a tiles_nonneg_update [of "tile_matrix g" ?t "nat ?y" "nat ?x"]
    show "tiles_nonneg (tile_matrix g1)" by (simp add: g1_def)
  qed
  from Cons.IH [OF rest ok1, of aff1] obtain g' aff' where
    run: "for_each cells (\<lambda>(col, row). lock_cell tiles blc n_rows col row) (g1, aff1) = Some (g', aff')"
    and ok': "shape_ok g'"
    and dims': "grid_height g' = grid_height g1" "grid_width g' = grid_width g1"
      "score g' = score g1" "current_tetromino g' = current_tetromino g1"
    and over': "game_over g' =
       (game_over g1 \<or>
        (\<exists>(col, row) \<in> set cells. tiles ! row ! col \<noteq> None \<and>
           \<not> is_inside g1 (point_y blc + (int n_rows - 1 - int row)) (point_x blc + int col)))"
    and aff'_in: "(\<forall>c \<in> set aff1. c < grid_width g1) \<longrightarrow> (\<forall>c \<in> set aff'. c < grid_width g1)"
    and aff'_d: "distinct aff1 \<longrightarrow> distinct aff'"
    and nn': "tiles_nonneg tiles \<and> tiles_nonneg (tile_matrix g1) \<longrightarrow> tiles_nonneg (tile_matrix g')"
    by blast
  have "for_each (cell # cells) (\<lambda>(col, row). lock_cell tiles blc n_rows col row) (g, aff) =
      Some (g', aff')"
    using step run cell by simp
  moreover from over' over1 cell
  have "game_over g' =
       (game_over g \<or>
        (\<exists>(col, row) \<in> set (cell # cells). tiles ! row ! col \<noteq> None \<and>
           \<not> is_inside g (point_y blc + (int n_rows - 1 - int row)) (point_x blc + int col)))"
    by (auto simp: inside1)
  moreover note ok' dims' [unfolded dims]
  moreover from aff1_in aff'_in dims
  have "(\<forall>c \<in> set aff. c < grid_width g) \<longrightarrow> (\<forall>c \<in> set aff'. c < grid_width g)" by simp
  moreover from aff1_d aff'_d have "distinct aff \<longrightarrow> distinct aff'" by simp
  moreover from nn1 nn'
  have "tiles_nonneg tiles \<and> tiles_nonneg (tile_matrix g) \<longrightarrow> tiles_nonneg (tile_matrix g')"
    by simp
  ultimately show ?case by blast
qed

lemma rows_cleared_shape:
  assumes "has_shape m h w"
  shows "has_shape (rows_cleared w m) h w"
proof -
  from assms have len: "length m = h" and rows: "\<forall>row \<in> set m. length row = w"
    by (auto simp: has_shape_def list_all_iff)
  have "length (filter (\<lambda>tiles. \<not> full_row tiles) m) + length (filter full_row m) = length m"
    using sum_length_filter_compl [of full_row m] by simp
  with len have "length (rows_cleared w m) = h" by (simp add: rows_cleared_def)
  moreover from rows have "\<forall>row \<in> set (rows_cleared w m). length row = w"
    by (auto simp: rows_cleared_def)
  ultimately show ?thesis by (simp add: has_shape_def list_all_iff)
qed

lemma rows_cleared_nonneg: "tiles_nonneg m \<Longrightarrow> tiles_nonneg (rows_cleared w m)"
  by (auto simp: tiles_nonneg_def rows_cleared_def list_all_iff tile_nonneg_def)

lemma row_score_nonneg: "list_all tile_nonneg tiles \<Longrightarrow> 0 \<le> row_score tiles"
  unfolding row_score_def
  by (rule sum_list_nonneg) (auto simp: list_all_iff tile_nonneg_def split: option.splits)

lemma cleared_score_nonneg:
  "tiles_nonneg m \<Longrightarrow> 0 \<le> sum_list (map row_score (filter full_row m))"
  by (rule sum_list_nonneg) (auto simp: tiles_nonneg_def list_all_iff intro!: row_score_nonneg)

lemma clear_follows:
  assumes f: "follows g0 g" and w: "0 < grid_width g"
  shows "\<exists>g3 cc. clear_full_rows_return_columns g = Some (Some (g3, cc)) \<and> follows g0 g3"
proof -
  from f have ok: "shape_ok g" by (simp add: follows_def)
  define g3 where "g3 = g\<lparr>tile_matrix := rows_cleared (grid_width g) (tile_matrix g),
                   score := score g + sum_list (map row_score (filter full_row (tile_matrix g)))\<rparr>"
  from clear_rows_loop_spec [OF ok w, of 0 "{}" 0]
  have run: "\<exists>cc. clear_full_rows_return_columns g = Some (Some (g3, cc))"
    by (simp add: clear_full_rows_return_columns_def g3_def)
  from ok rows_cleared_shape [of "tile_matrix g" "grid_height g" "grid_width g"]
  have ok3: "shape_ok g3" by (simp add: shape_ok_def g3_def)
  have "tiles_nonneg (tile_matrix g3) \<and> score g0 \<le> score g3" if "tiles_nonneg (tile_matrix g0)"
  proof -
    from f that have nn: "tiles_nonneg (tile_matrix g)" and s: "score g0 \<le> score g"
      by (simp_all add: follows_def)
    from rows_cleared_nonneg [OF nn] cleared_score_nonneg [OF nn] s show ?thesis
      by (simp add: g3_def)
  qed
  with f ok3 have "follows g0 g3" by (simp add: follows_def g3_def)
  with run show ?thesis by blast
qed

lemma follows_trans: "follows g0 g1 \<Longrightarrow> follows g1 g2 \<Longrightarrow> follows g0 g2"
  by (auto simp: follows_def)

lemma lock_tiles_spec:
  assumes tiles: "has_shape tiles nr nc" and nr: "0 < nr" and ok: "shape_ok g"
  shows "\<exists>g1 aff.
     lock_tiles g tiles blc = Some (g1, aff) \<and>
     shape_ok g1 \<and> grid_height g1 = grid_height g \<and> grid_width g1 = grid_width g \<and>
     score g1 = score g \<and> current_tetromino g1 = None \<and>
     game_over g1 =
       (game_over g \<or> (\<exists>(y, x) \<in> set (footprint_positions tiles blc). \<not> is_inside g y x)) \<and>
     (\<forall>c \<in> set aff. c < grid_width g) \<and> distinct aff \<and>
     (tiles_nonneg tiles \<and> tiles_nonneg (tile_matrix g) \<longrightarrow> tiles_nonneg (tile_matrix g1))"
proof -
  from tiles have len: "length tiles = nr" and rows: "\<forall>r < nr. length (tiles ! r) = nc"
    by (auto dest: has_shapeD)
  from nr len obtain first_row rest where t: "tiles = first_row # rest" by (cases tiles) auto
  with rows nr have first: "length first_row = nc" by auto
  let ?g0 = "g\<lparr>current_tetromino := None\<rparr>"
  let ?cells = "List.product [0..<nc] [0..<nr]"
  from ok have ok0: "shape_ok ?g0" by (simp add: shape_ok_def)
  have cells: "\<forall>(col, row) \<in> set ?cells. row < nr \<and> col < nc" by simp
  from lock_cells_spec [OF tiles cells ok0, of blc nr "[]"] obtain g1 aff where
    run: "for_each ?cells (\<lambda>(col, row). lock_cell tiles blc nr col row) (?g0, []) = Some (g1, aff)"
    and ok1: "shape_ok g1"
    and dims0: "grid_height g1 = grid_height ?g0" "grid_width g1 = grid_width ?g0"
      "score g1 = score ?g0" "current_tetromino g1 = current_tetromino ?g0"
    and over0: "game_over g1 =
       (game_over ?g0 \<or>
        (\<exists>(col, row) \<in> set ?cells. tiles ! row ! col \<noteq> None \<and>
           \<not> is_inside ?g0 (point_y blc + (int nr - 1 - int row)) (point_x blc + int col)))"
    and aff0: "(\<forall>c \<in> set []. c < grid_width ?g0) \<longrightarrow> (\<forall>c \<in> set aff. c < grid_width ?g0)"
      "distinct ([]::nat list) \<longrightarrow> distinct aff"
    and nn0: "tiles_nonneg tiles \<and> tiles_nonneg (tile_matrix ?g0) \<longrightarrow> tiles_nonneg (tile_matrix g1)"
    by blast
  from dims0 have dims: "grid_height g1 = grid_height g" "grid_width g1 = grid_width g"
      "score g1 = score g" "current_tetromino g1 = None"
    by simp_all
  from over0 have over: "game_over g1 =
       (game_over g \<or>
        (\<exists>(col, row) \<in> set ?cells. tiles ! row ! col \<noteq> None \<and>
           \<not> is_inside ?g0 (point_y blc + (int nr - 1 - int row)) (point_x blc + int col)))"
    by simp
  from aff0 have aff: "\<forall>c \<in> set aff. c < grid_width g" "distinct aff" by simp_all
  from nn0 have nn: "tiles_nonneg tiles \<and> tiles_nonneg (tile_matrix g) \<longrightarrow> tiles_nonneg (tile_matrix g1)"
    by simp
  from run t first len have lock: "lock_tiles g tiles blc = Some (g1, aff)"
    by (simp add: lock_tiles_def for_each_nested)
  have ins: "is_inside ?g0 y x = is_inside g y x" for y x by (simp add: is_inside_def)
  have "(\<exists>(col, row) \<in> set ?cells. tiles ! row ! col \<noteq> None \<and>
           \<not> is_inside g (point_y blc + (int nr - 1 - int row)) (point_x blc + int col)) =
        (\<exists>(y, x) \<in> set (footprint_positions tiles blc). \<not> is_inside g y x)"
    by (auto simp: footprint_positions_def set_occupied_list [OF tiles] len) force+
  with over have over': "game_over g1 =
       (game_over g \<or> (\<exists>(y, x) \<in> set (footprint_positions tiles blc). \<not> is_inside g y x))"
    by (simp add: ins)
  from lock ok1 dims over' aff nn show ?thesis by blast
qed

lemma update_grid_total:
  assumes ok: "shape_ok g" and h: "0 < grid_height g" and w: "0 < grid_width g"
    and tiles: "has_shape tiles nr nc" and nr: "0 < nr"
  shows "\<exists>g' over.
     update_grid g tiles blc = Some (Some (g', over)) \<and>
     over = (game_over g \<or> (\<exists>(y, x) \<in> set (footprint_positions tiles blc). \<not> is_inside g y x)) \<and>
     game_over g' = over \<and> shape_ok g' \<and>
     grid_height g' = grid_height g \<and> grid_width g' = grid_width g \<and>
     current_tetromino g' = None \<and>
     (over \<longrightarrow> (\<exists>aff. lock_tiles g tiles blc = Some (g', aff)) \<and> score g' = score g) \<and>
     (tiles_nonneg tiles \<and> tiles_nonneg (tile_matrix g) \<longrightarrow>
        tiles_nonneg (tile_matrix g') \<and> score g \<le> score g')"
proof -
  from lock_tiles_spec [OF tiles nr ok, of blc] obtain g1 aff where
    lock: "lock_tiles g tiles blc = Some (g1, aff)"
    and ok1: "shape_ok g1"
    and dims: "grid_height g1 = grid_height g" "grid_width g1 = grid_width g"
      "score g1 = score g" "current_tetromino g1 = None"
    and over: "game_over g1 =
       (game_over g \<or> (\<exists>(y, x) \<in> set (footprint_positions tiles blc). \<not> is_inside g y x))"
    and aff: "\<forall>c \<in> set aff. c < grid_width g" "distinct aff"
    and nn: "tiles_nonneg tiles \<and> tiles_nonneg (tile_matrix g) \<longrightarrow> tiles_nonneg (tile_matrix g1)"
    by blast
  show ?thesis
  proof (cases "game_over g1")
    case True
    with lock have "update_grid g tiles blc = Some (Some (g1, True))"
      by (simp add: update_grid_def)
    with True lock ok1 dims over nn show ?thesis by auto
  next
    case False
    from aff dims have aff1: "\<forall>c \<in> set aff. c < grid_width g1" by simp
    from merge_settle_loop_follows [OF follows_refl [OF ok1] aff1 aff(2)] obtain g2 k where
      loop: "merge_settle_loop g1 aff = Some (g2, k)" and f2: "follows g1 g2"
      by blast
    from f2 w dims have w2: "0 < grid_width g2" by (simp add: follows_def)
    from clear_follows [OF f2 w2] obtain g3 cc where
      clear: "clear_full_rows_return_columns g2 = Some (Some (g3, cc))" and f3: "follows g1 g3"
      by blast
    from f3 h dims have h3: "0 < grid_height g3" by (simp add: follows_def)
    from fall_follows [OF f3 h3] obtain g4 where
      fall: "fall_disconnected_tiles g3 = Some g4" and f4: "follows g1 g4"
      by blast
    from lock False loop clear fall
    have run: "update_grid g tiles blc = Some (Some (g4, False))"
      by (simp add: update_grid_def)
    from f4 False dims have props: "game_over g4 = False" "shape_ok g4"
      "grid_height g4 = grid_height g" "grid_width g4 = grid_width g"
      "current_tetromino g4 = None"
      by (simp_all add: follows_def)
    from f4 nn dims have "tiles_nonneg tiles \<and> tiles_nonneg (tile_matrix g) \<longrightarrow>
        tiles_nonneg (tile_matrix g4) \<and> score g \<le> score g4"
      by (simp add: follows_def)
    with run props over False show ?thesis by auto
  qed
qed

lemma lock_cell_step:
  assumes tiles: "has_shape tiles nr nc" and row: "row < nr" and col: "col < nc"
    and ok: "shape_ok g"
  shows "lock_cell tiles blc n_rows col row (g, aff) =
     Some (if tiles ! row ! col = None then (g, aff)
           else if is_inside g (point_y blc + (int n_rows - 1 - int row)) (point_x blc + int col)
             then (g\<lparr>tile_matrix := (tile_matrix g)
                      [nat (point_y blc + (int n_rows - 1 - int row)) :=
                         (tile_matrix g ! nat (point_y blc + (int n_rows - 1 - int row)))
                           [nat (point_x blc + int col) := tiles ! row ! col]]\<rparr>,
                   List.insert (nat (point_x blc + int col)) aff)
             else (g\<lparr>game_over := True\<rparr>, aff))"
proof -
  let ?y = "point_y blc + (int n_rows - 1 - int row)" and ?x = "point_x blc + int col"
  from get_cell_shape [OF tiles row col] have rd: "get_cell tiles row col = Some (tiles ! row ! col)" .
  from ok have shape: "has_shape (tile_matrix g) (grid_height g) (grid_width g)"
    by (simp add: shape_ok_def)
  show ?thesis
  proof (cases "tiles ! row ! col \<noteq> None \<and> is_inside g ?y ?x")
    case True
    then have "nat ?y < grid_height g" "nat ?x < grid_width g" by (auto dest: is_insideD)
    from set_cell_shape [OF shape this, of "tiles ! row ! col"] True rd show ?thesis
      by (auto simp: lock_cell_def Let_def)
  next
    case False
    with rd show ?thesis by (auto simp: lock_cell_def Let_def)
  qed
qed

lemma lock_cells_placed:
  assumes tiles: "has_shape tiles nr nc"
    and cells: "\<forall>(col, row) \<in> set cells. row < nr \<and> col < nc"
    and ok: "shape_ok g" and d: "distinct cells"
    and run: "for_each cells (\<lambda>(col, row). lock_cell tiles blc n_rows col row) (g, aff) =
                Some (g', aff')"
  shows "(\<forall>(col, row) \<in> set cells.
            tiles ! row ! col \<noteq> None \<and>
            is_inside g (point_y blc + (int n_rows - 1 - int row)) (point_x blc + int col) \<longrightarrow>
            tile_matrix g' ! nat (point_y blc + (int n_rows - 1 - int row))
                           ! nat (point_x blc + int col) = tiles ! row ! col) \<and>
         (\<forall>r c. (\<forall>(col, row) \<in> set cells. tiles ! row ! col \<noteq> None \<longrightarrow>
                    (point_y blc + (int n_rows - 1 - int row), point_x blc + int col)
                      \<noteq> (int r, int c)) \<longrightarrow>
                tile_matrix g' ! r ! c = tile_matrix g ! r ! c)"
  using cells ok d run
proof (induction cells arbitrary: g aff)
  case Nil
  then show ?case by simp
next
  case (Cons cell cells)
  obtain col row where cell: "cell = (col, row)" by (cases cell)
  with Cons.prems(1) have row: "row < nr" and col: "col < nc" by simp_all
  from Cons.prems(1) have rest: "\<forall>(col, row) \<in> set cells. row < nr \<and> col < nc" by simp
  from Cons.prems(3) cell have notin: "(col, row) \<notin> set cells" and dist: "distinct cells"
    by simp_all
  let ?y = "point_y blc + (int n_rows - 1 - int row)" and ?x = "point_x blc + int col"
  let ?t = "tiles ! row ! col"
  let ?m = "tile_matrix g"
  from Cons.prems(2) have shape: "has_shape ?m (grid_height g) (grid_width g)"
    by (simp add: shape_ok_def)
  define g1 where "g1 =
     (if ?t = None then g
      else if is_inside g ?y ?x
        then g\<lparr>tile_matrix := ?m[nat ?y := (?m ! nat ?y)[nat ?x := ?t]]\<rparr>
        else g\<lparr>game_over := True\<rparr>)"
  define aff1 where "aff1 =
     (if ?t \<noteq> None \<and> is_inside g ?y ?x then List.insert (nat ?x) aff else aff)"
  from lock_cell_step [OF tiles row col Cons.prems(2), of blc n_rows aff]
  have step: "lock_cell tiles blc n_rows col row (g, aff) = Some (g1, aff1)"
    by (simp add: g1_def aff1_def)
  with Cons.prems(4) cell
  have run1: "for_each cells (\<lambda>(col, row). lock_cell tiles blc n_rows col row) (g1, aff1) =
                Some (g', aff')"
    by simp
  have ok1: "shape_ok g1"
    using Cons.prems(2) has_shape_update [OF shape, of "nat ?y" "nat ?x" ?t]
    by (simp add: g1_def shape_ok_def)
  have inside1: "is_inside g1 y x = is_inside g y x" for y x
    by (simp add: is_inside_def g1_def)
  from Cons.IH [OF rest ok1 dist run1]
  have placed: "\<forall>(col, row) \<in> set cells.
            tiles ! row ! col \<noteq> None \<and>
            is_inside g (point_y blc + (int n_rows - 1 - int row)) (point_x blc + int col) \<longrightarrow>
            tile_matrix g' ! nat (point_y blc + (int n_rows - 1 - int row))
                           ! nat (point_x blc + int col) = tiles ! row ! col"
    and frame: "\<forall>r c. (\<forall>(col, row) \<in> set cells. tiles ! row ! col \<noteq> None \<longrightarrow>
                    (point_y blc + (int n_rows - 1 - int row), point_x blc + int col)
                      \<noteq> (int r, int c)) \<longrightarrow>
                tile_matrix g' ! r ! c = tile_matrix g1 ! r ! c"
    by (simp_all add: inside1)
  have here: "tile_matrix g' ! nat ?y ! nat ?x = ?t" if occ: "?t \<noteq> None" and ins: "is_inside g ?y ?x"
  proof -
    from ins have y: "nat ?y < grid_height g" and x: "nat ?x < grid_width g"
      and pos: "0 \<le> ?y" "0 \<le> ?x"
      by (auto simp: is_inside_def)
    have "\<forall>(col', row') \<in> set cells. tiles ! row' ! col' \<noteq> None \<longrightarrow>
        (point_y blc + (int n_rows - 1 - int row'), point_x blc + int col')
          \<noteq> (int (nat ?y), int (nat ?x))"
      using notin pos by auto
    with frame have "tile_matrix g' ! nat ?y ! nat ?x = tile_matrix g1 ! nat ?y ! nat ?x"
      by blast
    also from occ ins shape y x have "\<dots> = ?t"
      by (auto simp: g1_def dest!: has_shapeD)
    finally show ?thesis .
  qed
  have other: "tile_matrix g' ! r ! c = ?m ! r ! c"
    if "\<forall>(col, row) \<in> set (cell # cells). tiles ! row ! col \<noteq> None \<longrightarrow>
           (point_y blc + (int n_rows - 1 - int row), point_x blc + int col) \<noteq> (int r, int c)"
    for r c
  proof -
    from that frame have "tile_matrix g' ! r ! c = tile_matrix g1 ! r ! c" by simp
    also have "\<dots> = ?m ! r ! c"
    proof (cases "?t \<noteq> None \<and> is_inside g ?y ?x")
      case False
      then show ?thesis by (auto simp: g1_def)
    next
      case True
      with that cell have ne: "(?y, ?x) \<noteq> (int r, int c)" by simp
      from True have "0 \<le> ?y" "0 \<le> ?x" by (auto simp: is_inside_def)
      with ne have "nat ?y \<noteq> r \<or> nat ?x \<noteq> c" by auto
      moreover from True shape have "nat ?y < length ?m"
        by (auto dest!: has_shapeD is_insideD)
      ultimately show ?thesis using True
        by (auto simp: g1_def nth_list_update)
    qed
    finally show ?thesis .
  qed
  from placed here other cell show ?case by auto
qed

section \<open>Rotation\<close>

lemma rot90_cw_square:
  assumes "has_shape m n n"
  shows "rot90_cw m = map (\<lambda>i. rev (map (\<lambda>j. m ! j ! i) [0..<n])) [0..<n]"
proof -
  from assms have len: "length m = n" and rows: "\<And>i. i < length m \<Longrightarrow> length (m ! i) = n"
    by (auto dest: has_shapeD)
  from len have "m = [] \<Longrightarrow> n = 0" by simp
  from transpose_rectangle [OF this rows]
  have "transpose m = map (\<lambda>i. map (\<lambda>j. m ! j ! i) [0..<length m]) [0..<n]" by simp
  with len show ?thesis by (simp add: rot90_cw_def)
qed

lemma rot90_cw_nth:
  assumes "has_shape m n n" and "i < n" and "j < n"
  shows "rot90_cw m ! i ! j = m ! (n - 1 - j) ! i"
  using assms(2,3) by (simp add: rot90_cw_square [OF assms(1)] rev_nth)

lemma rot90_cw_shape: "has_shape m n n \<Longrightarrow> has_shape (rot90_cw m) n n"
  by (rule has_shapeI) (simp_all add: rot90_cw_square)

lemma length_filter_sum:
  "length (filter P xs) = (\<Sum>j = 0..<length xs. if P (xs ! j) then 1 else 0)"
proof -
  have "length (filter P xs) = sum_list (map (\<lambda>x. if P x then 1 else 0) xs)"
    by (induction xs) auto
  also have "\<dots> = (\<Sum>j = 0..<length xs. if P (xs ! j) then 1 else 0)"
    by (simp add: sum_list_sum_nth)
  finally show ?thesis .
qed

lemma occupied_count_sum:
  assumes "has_shape m h w"
  shows "occupied_count m = (\<Sum>i = 0..<h. \<Sum>j = 0..<w. if m ! i ! j \<noteq> None then 1 else 0)"
proof -
  from assms have len: "length m = h" and rows: "\<forall>i < h. length (m ! i) = w"
    by (auto dest: has_shapeD)
  have "occupied_count m = sum_list (map (\<lambda>row. length (filter (\<lambda>t. t \<noteq> None) row)) m)"
    by (simp add: occupied_count_def filter_concat length_concat comp_def)
  also have "\<dots> = (\<Sum>i = 0..<h. length (filter (\<lambda>t. t \<noteq> None) (m ! i)))"
    by (simp add: sum_list_sum_nth len)
  also have "\<dots> = (\<Sum>i = 0..<h. \<Sum>j = 0..<w. if m ! i ! j \<noteq> None then 1 else 0)"
    using rows by (intro sum.cong) (simp_all add: length_filter_sum)
  finally show ?thesis .
qed

lemma rot90_cw_occupied_count:
  assumes "has_shape m n n"
  shows "occupied_count (rot90_cw m) = occupied_count m"
proof -
  let ?f = "\<lambda>i j. if m ! i ! j \<noteq> None then 1 else (0::nat)"
  have "occupied_count (rot90_cw m) =
        (\<Sum>i = 0..<n. \<Sum>j = 0..<n. if rot90_cw m ! i ! j \<noteq> None then 1 else 0)"
    by (rule occupied_count_sum [OF rot90_cw_shape [OF assms]])
  also have "\<dots> = (\<Sum>i = 0..<n. \<Sum>j = 0..<n. ?f (n - 1 - j) i)"
    by (intro sum.cong refl) (simp add: rot90_cw_nth [OF assms])
  also have "\<dots> = (\<Sum>i = 0..<n. \<Sum>j = 0..<n. ?f j i)"
  proof -
    have "(\<Sum>j = 0..<n. ?f (n - 1 - j) i) = (\<Sum>j = 0..<n. ?f j i)" for i
      using sum.nat_diff_reindex [of "\<lambda>j. ?f j i" n] by (simp add: atLeast0LessThan)
    then show ?thesis by simp
  qed
  also have "\<dots> = (\<Sum>j = 0..<n. \<Sum>i = 0..<n. ?f j i)" by (rule sum.swap)
  also have "\<dots> = occupied_count m" by (rule occupied_count_sum [OF assms, symmetric])
  finally show ?thesis .
qed

lemma is_occupied_shape:
  assumes "shape_ok g"
  shows "is_occupied g y x = Some (is_inside g y x \<and> tile_matrix g ! nat y ! nat x \<noteq> None)"
proof (cases "is_inside g y x")
  case True
  from assms have "has_shape (tile_matrix g) (grid_height g) (grid_width g)"
    by (simp add: shape_ok_def)
  from get_cell_shape [OF this] is_insideD [OF True] True show ?thesis
    by (simp add: is_occupied_def)
next
  case False
  then show ?thesis by (simp add: is_occupied_def)
qed

lemma rotation_blocked_spec:
  assumes ok: "shape_ok g" and rot: "has_shape rotated n n"
    and cells: "\<forall>(r, c) \<in> set cells. r < n \<and> c < n"
  shows "rotation_blocked gh gw g blc rotated cells =
     Some (\<exists>(r, c) \<in> set cells. rotated ! r ! c \<noteq> None \<and>
             \<not> (0 \<le> point_x blc + int c \<and> point_x blc + int c < gw \<and>
                0 \<le> point_y blc + (int n - 1) - int r \<and>
                point_y blc + (int n - 1) - int r < gh \<and>
                is_occupied g (point_y blc + (int n - 1) - int r) (point_x blc + int c)
                  = Some False))"
  using cells
proof (induction cells)
  case Nil
  then show ?case by simp
next
  case (Cons cell cells)
  obtain r c where cell: "cell = (r, c)" by (cases cell)
  with Cons.prems have r: "r < n" and c: "c < n" by simp_all
  from rot have len: "length rotated = n" by (auto dest: has_shapeD)
  from get_cell_shape [OF rot r c] have rd: "get_cell rotated r c = Some (rotated ! r ! c)" .
  from Cons.prems have "\<forall>(r, c) \<in> set cells. r < n \<and> c < n" by simp
  note ih = Cons.IH [OF this]
  note occ = is_occupied_shape [OF ok, of "point_y blc + (int n - 1) - int r" "point_x blc + int c"]
  show ?case
    unfolding cell
    by (simp add: rd len ih occ) auto
qed

lemma rotate_piece_spec:
  assumes "shape_ok g" and "has_shape (tet_matrix t) n n"
  shows "rotate_piece gh gw t g =
           Some (if rotation_fits gh gw t g
                 then (True, t\<lparr>tet_matrix := rot90_cw (tet_matrix t)\<rparr>)
                 else (False, t))"
proof -
  let ?rot = "rot90_cw (tet_matrix t)"
  let ?blc = "bottom_left_cell t"
  note shape = rot90_cw_shape [OF assms(2)]
  then have len: "length ?rot = n" by (auto dest: has_shapeD)
  have cells: "\<forall>(r, c) \<in> set (List.product [0..<n] [0..<n]). r < n \<and> c < n" by simp
  define px where "px = (\<lambda>c. point_x ?blc + int c)"
  define py where "py = (\<lambda>r. point_y ?blc + (int n - 1) - int r)"
  define free where "free = (\<lambda>r c. \<not> (py r < int (grid_height g) \<and> px c < int (grid_width g) \<and>
                     tile_matrix g ! nat (py r) ! nat (px c) \<noteq> None))"
  define ok where "ok = (\<lambda>r c. 0 \<le> px c \<and> px c < gw \<and> 0 \<le> py r \<and> py r < gh \<and> free r c)"
  from len have len': "length (transpose (tet_matrix t)) = n" by (simp add: rot90_cw_def)
  have fits: "rotation_fits gh gw t g = (\<forall>r < n. \<forall>c < n. ?rot ! r ! c = None \<or> ok r c)"
    by (simp add: rotation_fits_def Let_def list_all_iff len' rot90_cw_def ok_def free_def
          px_def py_def Ball_def)
  have occ: "(0 \<le> px c \<and> px c < gw \<and> 0 \<le> py r \<and> py r < gh \<and>
               is_occupied g (py r) (px c) = Some False) = ok r c" for r c
    by (auto simp: is_occupied_shape [OF assms(1)] is_inside_def ok_def free_def)
  from rotation_blocked_spec [OF assms(1) shape cells, of gh gw ?blc]
  have "rotation_blocked gh gw g ?blc ?rot (List.product [0..<n] [0..<n]) =
     Some (\<exists>(r, c) \<in> set (List.product [0..<n] [0..<n]). ?rot ! r ! c \<noteq> None \<and>
             \<not> (0 \<le> px c \<and> px c < gw \<and> 0 \<le> py r \<and> py r < gh \<and>
                is_occupied g (py r) (px c) = Some False))"
    by (simp add: px_def py_def)
  also have "(\<exists>(r, c) \<in> set (List.product [0..<n] [0..<n]). ?rot ! r ! c \<noteq> None \<and>
             \<not> (0 \<le> px c \<and> px c < gw \<and> 0 \<le> py r \<and> py r < gh \<and>
                is_occupied g (py r) (px c) = Some False)) =
        (\<not> rotation_fits gh gw t g)"
    unfolding occ fits by (simp add: Bex_def)
  finally have blocked: "rotation_blocked gh gw g ?blc ?rot (List.product [0..<n] [0..<n]) =
      Some (\<not> rotation_fits gh gw t g)" .
  then show ?thesis by (simp add: rotate_piece_def Let_def len)
qed

lemma list_all_square:
  "list_all (\<lambda>r. list_all (\<lambda>c. A r c = None \<or> Q r c) [0..<n]) [0..<n] =
   (\<forall>r < n. \<forall>c < n. A r c \<noteq> None \<longrightarrow> Q r c)"
  by (simp add: list_all_iff Ball_def disj_imp)

lemma rotation_fits_iff:
  assumes "has_shape (tet_matrix t) n n"
  shows "rotation_fits gh gw t g =
     (\<forall>r < n. \<forall>c < n. rot90_cw (tet_matrix t) ! r ! c \<noteq> None \<longrightarrow>
        0 \<le> point_x (bottom_left_cell t) + int c \<and>
        point_x (bottom_left_cell t) + int c < gw \<and>
        0 \<le> point_y (bottom_left_cell t) + (int n - 1) - int r \<and>
        point_y (bottom_left_cell t) + (int n - 1) - int r < gh \<and>
        \<not> (point_y (bottom_left_cell t) + (int n - 1) - int r < int (grid_height g) \<and>
           point_x (bottom_left_cell t) + int c < int (grid_width g) \<and>
           tile_matrix g ! nat (point_y (bottom_left_cell t) + (int n - 1) - int r)
                        ! nat (point_x (bottom_left_cell t) + int c) \<noteq> None))"
proof -
  from rot90_cw_shape [OF assms] have "length (rot90_cw (tet_matrix t)) = n"
    by (auto dest: has_shapeD)
  then have len: "length (map rev (transpose (tet_matrix t))) = n" by (simp add: rot90_cw_def)
  show ?thesis
    unfolding rotation_fits_def Let_def rot90_cw_def len by (rule list_all_square)
qed

text \<open>
  Claim C8. For a piece with a square matrix over a grid of the constructor's shape,
  \<open>rotate_piece\<close> returns: the rotated matrix is the transposed matrix with its columns in
  reverse order, which is the clockwise quarter turn (the cell \<open>(i, j)\<close> of the new matrix
  is the cell \<open>(n - 1 - j, i)\<close> of the old one); when every occupied cell of it lies
  inside the board and on a cell of the grid's matrix that holds no tile (\<open>rotation_fits\<close>,
  which reads \<open>tile_matrix\<close> itself), the piece gets the rotated matrix, keeps its
  bottom-left cell, and the result is true; otherwise the piece is returned as it was and
  the result is false; the number of occupied cells is the same in both cases. After a
  rotation that returned true, no occupied cell of the piece is outside the board or on a
  tile of the grid's matrix.
\<close>

theorem rotate_correct:
  assumes "shape_ok g" and "has_shape (tet_matrix t) n n"
  shows "rotate_piece gh gw t g =
           Some (if rotation_fits gh gw t g
                 then (True, t\<lparr>tet_matrix := rot90_cw (tet_matrix t)\<rparr>)
                 else (False, t)) \<and>
         rot90_cw (tet_matrix t) = map rev (transpose (tet_matrix t)) \<and>
         has_shape (rot90_cw (tet_matrix t)) n n \<and>
         (\<forall>i < n. \<forall>j < n. rot90_cw (tet_matrix t) ! i ! j = tet_matrix t ! (n - 1 - j) ! i) \<and>
         (\<forall>b t'. rotate_piece gh gw t g = Some (b, t') \<longrightarrow>
            occupied_count (tet_matrix t') = occupied_count (tet_matrix t) \<and>
            bottom_left_cell t' = bottom_left_cell t \<and> tet_type t' = tet_type t \<and>
            (\<not> b \<longrightarrow> t' = t) \<and>
            (b \<longrightarrow>
               (\<forall>r < n. \<forall>c < n. tet_matrix t' ! r ! c \<noteq> None \<longrightarrow>
                  0 \<le> point_x (bottom_left_cell t) + int c \<and>
                  point_x (bottom_left_cell t) + int c < gw \<and>
                  0 \<le> point_y (bottom_left_cell t) + (int n - 1) - int r \<and>
                  point_y (bottom_left_cell t) + (int n - 1) - int r < gh \<and>
                  \<not> (point_y (bottom_left_cell t) + (int n - 1) - int r < int (grid_height g) \<and>
                     point_x (bottom_left_cell t) + int c < int (grid_width g) \<and>
                     tile_matrix g ! nat (point_y (bottom_left_cell t) + (int n - 1) - int r)
                                  ! nat (point_x (bottom_left_cell t) + int c) \<noteq> None))))"
proof -
  let ?rot = "rot90_cw (tet_matrix t)"
  define P where "P = (\<lambda>m::matrix. (\<forall>r < n. \<forall>c < n. m ! r ! c \<noteq> None \<longrightarrow>
                  0 \<le> point_x (bottom_left_cell t) + int c \<and>
                  point_x (bottom_left_cell t) + int c < gw \<and>
                  0 \<le> point_y (bottom_left_cell t) + (int n - 1) - int r \<and>
                  point_y (bottom_left_cell t) + (int n - 1) - int r < gh \<and>
                  \<not> (point_y (bottom_left_cell t) + (int n - 1) - int r < int (grid_height g) \<and>
                     point_x (bottom_left_cell t) + int c < int (grid_width g) \<and>
                     tile_matrix g ! nat (point_y (bottom_left_cell t) + (int n - 1) - int r)
                                  ! nat (point_x (bottom_left_cell t) + int c) \<noteq> None)))"
  note shape = rot90_cw_shape [OF assms(2)]
  note run = rotate_piece_spec [OF assms, of gh gw]
  have iff: "rotation_fits gh gw t g = P ?rot"
    unfolding P_def by (rule rotation_fits_iff [OF assms(2)])
  have c2: "?rot = map rev (transpose (tet_matrix t))" by (simp add: rot90_cw_def)
  have c4: "\<forall>i < n. \<forall>j < n. ?rot ! i ! j = tet_matrix t ! (n - 1 - j) ! i"
    using rot90_cw_nth [OF assms(2)] by simp
  have c5: "\<forall>b t'. rotate_piece gh gw t g = Some (b, t') \<longrightarrow>
            occupied_count (tet_matrix t') = occupied_count (tet_matrix t) \<and>
            bottom_left_cell t' = bottom_left_cell t \<and> tet_type t' = tet_type t \<and>
            (\<not> b \<longrightarrow> t' = t) \<and> (b \<longrightarrow> P (tet_matrix t'))"
  proof (intro allI impI)
    fix b t'
    assume res: "rotate_piece gh gw t g = Some (b, t')"
    show "occupied_count (tet_matrix t') = occupied_count (tet_matrix t) \<and>
            bottom_left_cell t' = bottom_left_cell t \<and> tet_type t' = tet_type t \<and>
            (\<not> b \<longrightarrow> t' = t) \<and> (b \<longrightarrow> P (tet_matrix t'))"
    proof (cases "rotation_fits gh gw t g")
      case True
      with run res have b: "b" and t': "t' = t\<lparr>tet_matrix := ?rot\<rparr>" by simp_all
      from True iff have "P ?rot" by simp
      with b t' rot90_cw_occupied_count [OF assms(2)] show ?thesis by simp
    next
      case False
      with run res show ?thesis by simp
    qed
  qed
  have "rotate_piece gh gw t g =
           Some (if rotation_fits gh gw t g
                 then (True, t\<lparr>tet_matrix := rot90_cw (tet_matrix t)\<rparr>)
                 else (False, t)) \<and>
         rot90_cw (tet_matrix t) = map rev (transpose (tet_matrix t)) \<and>
         has_shape (rot90_cw (tet_matrix t)) n n \<and>
         (\<forall>i < n. \<forall>j < n. rot90_cw (tet_matrix t) ! i ! j = tet_matrix t ! (n - 1 - j) ! i) \<and>
         (\<forall>b t'. rotate_piece gh gw t g = Some (b, t') \<longrightarrow>
            occupied_count (tet_matrix t') = occupied_count (tet_matrix t) \<and>
            bottom_left_cell t' = bottom_left_cell t \<and> tet_type t' = tet_type t \<and>
            (\<not> b \<longrightarrow> t' = t) \<and> (b \<longrightarrow> P (tet_matrix t')))"
    by (intro conjI run c2 shape c4 c5)
  then show ?thesis unfolding P_def .
qed

text \<open>
  The theorem of C8 on a T piece over a board of 8 by 8 cells whose matrix holds one
  tile, on row 3 in column 3. The piece that points up with its bottom-left cell at
  \<open>(2, 3)\<close> has its middle over that tile: the turned piece would put a tile on it, the
  result is false and the piece is as it was. One row higher the turn succeeds and the
  piece points to the right. The piece that points to the right against the left wall,
  with its bottom-left cell in column \<open>-1\<close>, would leave the board: the result is false.
\<close>

theorem rotate_correct_witness:
  "shape_ok ((GameGrid_init 8 8)\<lparr>tile_matrix :=
        (np_full 8 8)[3 := (replicate 8 None)[3 := Some \<lparr>number = 8\<rparr>]]\<rparr>) \<and>
   has_shape [[None, Some \<lparr>number = 2\<rparr>, None],
                    [Some \<lparr>number = 2\<rparr>, Some \<lparr>number = 4\<rparr>, Some \<lparr>number = 2\<rparr>],
                    [None, None, None]] 3 3 \<and>
   has_shape [[None, Some \<lparr>number = 2\<rparr>, None],
                    [None, Some \<lparr>number = 4\<rparr>, Some \<lparr>number = 2\<rparr>],
                    [None, Some \<lparr>number = 2\<rparr>, None]] 3 3 \<and>
   tile_matrix ((GameGrid_init 8 8)\<lparr>tile_matrix :=
        (np_full 8 8)[3 := (replicate 8 None)[3 := Some \<lparr>number = 8\<rparr>]]\<rparr>) ! 3 ! 3 = Some \<lparr>number = 8\<rparr> \<and>
   rotate_piece 8 8
     \<lparr>tet_type = ''T'',
      tet_matrix = [[None, Some \<lparr>number = 2\<rparr>, None],
                    [Some \<lparr>number = 2\<rparr>, Some \<lparr>number = 4\<rparr>, Some \<lparr>number = 2\<rparr>],
                    [None, None, None]],
      bottom_left_cell = \<lparr>point_x = 2, point_y = 3\<rparr>\<rparr>
     ((GameGrid_init 8 8)\<lparr>tile_matrix :=
        (np_full 8 8)[3 := (replicate 8 None)[3 := Some \<lparr>number = 8\<rparr>]]\<rparr>) =
   Some (False,
     \<lparr>tet_type = ''T'',
      tet_matrix = [[None, Some \<lparr>number = 2\<rparr>, None],
                    [Some \<lparr>number = 2\<rparr>, Some \<lparr>number = 4\<rparr>, Some \<lparr>number = 2\<rparr>],
                    [None, None, None]],
      bottom_left_cell = \<lparr>point_x = 2, point_y = 3\<rparr>\<rparr>) \<and>
   rotate_piece 8 8
     \<lparr>tet_type = ''T'',
      tet_matrix = [[None, Some \<lparr>number = 2\<rparr>, None],
                    [Some \<lparr>number = 2\<rparr>, Some \<lparr>number = 4\<rparr>, Some \<lparr>number = 2\<rparr>],
                    [None, None, None]],
      bottom_left_cell = \<lparr>point_x = 2, point_y = 4\<rparr>\<rparr>
     ((GameGrid_init 8 8)\<lparr>tile_matrix :=
        (np_full 8 8)[3 := (replicate 8 None)[3 := Some \<lparr>number = 8\<rparr>]]\<rparr>) =
   Some (True,
     \<lparr>tet_type = ''T'',
      tet_matrix = [[None, Some \<lparr>number = 2\<rparr>, None],
                    [None, Some \<lparr>number = 4\<rparr>, Some \<lparr>number = 2\<rparr>],
                    [None, Some \<lparr>number = 2\<rparr>, None]],
      bottom_left_cell = \<lparr>point_x = 2, point_y = 4\<rparr>\<rparr>) \<and>
   rotate_piece 8 8
     \<lparr>tet_type = ''T'',
      tet_matrix = [[None, Some \<lparr>number = 2\<rparr>, None],
                    [None, Some \<lparr>number = 4\<rparr>, Some \<lparr>number = 2\<rparr>],
                    [None, Some \<lparr>number = 2\<rparr>, None]],
      bottom_left_cell = \<lparr>point_x = -1, point_y = 4\<rparr>\<rparr>
     ((GameGrid_init 8 8)\<lparr>tile_matrix :=
        (np_full 8 8)[3 := (replicate 8 None)[3 := Some \<lparr>number = 8\<rparr>]]\<rparr>) =
   Some (False,
     \<lparr>tet_type = ''T'',
      tet_matrix = [[None, Some \<lparr>number = 2\<rparr>, None],
                    [None, Some \<lparr>number = 4\<rparr>, Some \<lparr>number = 2\<rparr>],
                    [None, Some \<lparr>number = 2\<rparr>, None]],
      bottom_left_cell = \<lparr>point_x = -1, point_y = 4\<rparr>\<rparr>)"
proof -
  let ?g = "((GameGrid_init 8 8)\<lparr>tile_matrix :=
        (np_full 8 8)[3 := (replicate 8 None)[3 := Some \<lparr>number = 8\<rparr>]]\<rparr>)"
  let ?t1 = "\<lparr>tet_type = ''T'',
      tet_matrix = [[None, Some \<lparr>number = 2\<rparr>, None],
                    [Some \<lparr>number = 2\<rparr>, Some \<lparr>number = 4\<rparr>, Some \<lparr>number = 2\<rparr>],
                    [None, None, None]],
      bottom_left_cell = \<lparr>point_x = 2, point_y = 3\<rparr>\<rparr>"
  let ?t2 = "\<lparr>tet_type = ''T'',
      tet_matrix = [[None, Some \<lparr>number = 2\<rparr>, None],
                    [Some \<lparr>number = 2\<rparr>, Some \<lparr>number = 4\<rparr>, Some \<lparr>number = 2\<rparr>],
                    [None, None, None]],
      bottom_left_cell = \<lparr>point_x = 2, point_y = 4\<rparr>\<rparr>"
  let ?t3 = "\<lparr>tet_type = ''T'',
      tet_matrix = [[None, Some \<lparr>number = 2\<rparr>, None],
                    [None, Some \<lparr>number = 4\<rparr>, Some \<lparr>number = 2\<rparr>],
                    [None, Some \<lparr>number = 2\<rparr>, None]],
      bottom_left_cell = \<lparr>point_x = -1, point_y = 4\<rparr>\<rparr>"
  have h1: "shape_ok ?g" by code_simp
  have u: "has_shape [[None, Some \<lparr>number = 2\<rparr>, None],
                    [Some \<lparr>number = 2\<rparr>, Some \<lparr>number = 4\<rparr>, Some \<lparr>number = 2\<rparr>],
                    [None, None, None]] 3 3" by (simp add: has_shape_def)
  have r: "has_shape [[None, Some \<lparr>number = 2\<rparr>, None],
                    [None, Some \<lparr>number = 4\<rparr>, Some \<lparr>number = 2\<rparr>],
                    [None, Some \<lparr>number = 2\<rparr>, None]] 3 3" by (simp add: has_shape_def)
  from u have s1: "has_shape (tet_matrix ?t1) 3 3" by simp
  from u have s2: "has_shape (tet_matrix ?t2) 3 3" by simp
  from r have s3: "has_shape (tet_matrix ?t3) 3 3" by simp
  have tile: "tile_matrix ?g ! 3 ! 3 = Some \<lparr>number = 8\<rparr>" by code_simp
  have f1: "rotation_fits 8 8 ?t1 ?g = False" by code_simp
  have f2: "rotation_fits 8 8 ?t2 ?g = True" by code_simp
  have f3: "rotation_fits 8 8 ?t3 ?g = False" by code_simp
  have rot: "?t2\<lparr>tet_matrix := rot90_cw (tet_matrix ?t2)\<rparr> =
     \<lparr>tet_type = ''T'',
      tet_matrix = [[None, Some \<lparr>number = 2\<rparr>, None],
                    [None, Some \<lparr>number = 4\<rparr>, Some \<lparr>number = 2\<rparr>],
                    [None, Some \<lparr>number = 2\<rparr>, None]],
      bottom_left_cell = \<lparr>point_x = 2, point_y = 4\<rparr>\<rparr>"
    by code_simp
  from rotate_correct [OF h1 s1, of 8 8, THEN conjunct1]
  have r1: "rotate_piece 8 8 ?t1 ?g = Some (False, ?t1)" by (simp only: f1 if_False)
  from rotate_correct [OF h1 s2, of 8 8, THEN conjunct1]
  have r2: "rotate_piece 8 8 ?t2 ?g = Some (True, \<lparr>tet_type = ''T'',
      tet_matrix = [[None, Some \<lparr>number = 2\<rparr>, None],
                    [None, Some \<lparr>number = 4\<rparr>, Some \<lparr>number = 2\<rparr>],
                    [None, Some \<lparr>number = 2\<rparr>, None]],
      bottom_left_cell = \<lparr>point_x = 2, point_y = 4\<rparr>\<rparr>)"
    by (simp only: f2 if_True rot)
  from rotate_correct [OF h1 s3, of 8 8, THEN conjunct1]
  have r3: "rotate_piece 8 8 ?t3 ?g = Some (False, ?t3)" by (simp only: f3 if_False)
  show ?thesis by (intro conjI h1 u r tile r1 r2 r3)
qed

lemma lock_tiles_placed:
  assumes tiles: "has_shape tiles nr nc" and nr: "0 < nr" and ok: "shape_ok g"
    and lock: "lock_tiles g tiles blc = Some (g1, aff)"
    and cell: "(row, col) \<in> set (occupied_list tiles)"
    and ins: "is_inside g (point_y blc + (int (length tiles) - 1 - int row)) (point_x blc + int col)"
  shows "get_cell (tile_matrix g1) (nat (point_y blc + (int (length tiles) - 1 - int row)))
           (nat (point_x blc + int col)) = Some (tiles ! row ! col)"
proof -
  from tiles have len: "length tiles = nr" and rows: "\<forall>r < nr. length (tiles ! r) = nc"
    by (auto dest: has_shapeD)
  from nr len obtain first_row rest where t: "tiles = first_row # rest" by (cases tiles) auto
  with rows nr have first: "length first_row = nc" by auto
  let ?g0 = "g\<lparr>current_tetromino := None\<rparr>"
  let ?cells = "List.product [0..<nc] [0..<nr]"
  let ?y = "point_y blc + (int nr - 1 - int row)" and ?x = "point_x blc + int col"
  from ok have ok0: "shape_ok ?g0" by (simp add: shape_ok_def)
  have cells: "\<forall>(col, row) \<in> set ?cells. row < nr \<and> col < nc" by simp
  have d: "distinct ?cells" by (simp add: distinct_product)
  from lock t first len
  have run: "for_each ?cells (\<lambda>(col, row). lock_cell tiles blc nr col row) (?g0, []) = Some (g1, aff)"
    by (simp add: lock_tiles_def for_each_nested del: upt_Suc)
  from cell set_occupied_list [OF tiles] have rc: "row < nr" "col < nc" and occ: "tiles ! row ! col \<noteq> None"
    by auto
  from ins len have ins0: "is_inside ?g0 ?y ?x" by (simp add: is_inside_def)
  from lock_cells_placed [OF tiles cells ok0 d run] rc occ ins0
  have placed: "tile_matrix g1 ! nat ?y ! nat ?x = tiles ! row ! col" by auto
  from lock_tiles_spec [OF tiles nr ok, of blc] lock
  have ok1: "shape_ok g1" and dims: "grid_height g1 = grid_height g" "grid_width g1 = grid_width g"
    by auto
  from ok1 have "has_shape (tile_matrix g1) (grid_height g1) (grid_width g1)"
    by (simp add: shape_ok_def)
  from get_cell_shape [OF this, of "nat ?y" "nat ?x"] is_insideD [OF ins] dims len placed
  show ?thesis by simp
qed

text \<open>
  Claim C2, as the code has it. On a grid of the constructor's shape with at least one
  row and one column and a footprint matrix with at least one row, \<open>update_grid\<close>
  returns, and it returns true exactly when the flag \<open>game_over\<close> of the grid was set
  before the call or some occupied cell of the footprint maps outside the grid. When it
  returns true, the grid is the one that the placing loop left: no merge, clearing or
  gravity pass has run, the score is the same, and every occupied cell of the footprint
  that maps inside the grid holds its tile.
\<close>

theorem update_grid_game_over:
  assumes "shape_ok g" and "0 < grid_height g" and "0 < grid_width g"
    and "has_shape tiles_to_lock n_rows n_cols" and "0 < n_rows"
  shows "\<exists>g' over.
     update_grid g tiles_to_lock blc_position = Some (Some (g', over)) \<and>
     over = (game_over g \<or>
             (\<exists>(y, x) \<in> set (footprint_positions tiles_to_lock blc_position). \<not> is_inside g y x)) \<and>
     game_over g' = over \<and>
     (over \<longrightarrow>
        (\<exists>affected_cols. lock_tiles g tiles_to_lock blc_position = Some (g', affected_cols)) \<and>
        score g' = score g \<and>
        (\<forall>(row, col) \<in> set (occupied_list tiles_to_lock).
           is_inside g (point_y blc_position + (int (length tiles_to_lock) - 1 - int row))
                       (point_x blc_position + int col) \<longrightarrow>
           get_cell (tile_matrix g')
             (nat (point_y blc_position + (int (length tiles_to_lock) - 1 - int row)))
             (nat (point_x blc_position + int col)) = Some (tiles_to_lock ! row ! col)))"
proof -
  from update_grid_total [OF assms, of blc_position] obtain g' over where
    run: "update_grid g tiles_to_lock blc_position = Some (Some (g', over))"
    and over: "over = (game_over g \<or>
             (\<exists>(y, x) \<in> set (footprint_positions tiles_to_lock blc_position). \<not> is_inside g y x))"
    and flag: "game_over g' = over"
    and stop: "over \<longrightarrow>
        (\<exists>aff. lock_tiles g tiles_to_lock blc_position = Some (g', aff)) \<and> score g' = score g"
    by blast
  have "\<forall>(row, col) \<in> set (occupied_list tiles_to_lock).
           is_inside g (point_y blc_position + (int (length tiles_to_lock) - 1 - int row))
                       (point_x blc_position + int col) \<longrightarrow>
           get_cell (tile_matrix g')
             (nat (point_y blc_position + (int (length tiles_to_lock) - 1 - int row)))
             (nat (point_x blc_position + int col)) = Some (tiles_to_lock ! row ! col)"
    if over
  proof -
    from stop that obtain aff where "lock_tiles g tiles_to_lock blc_position = Some (g', aff)"
      by blast
    from lock_tiles_placed [OF assms(4,5,1) this] show ?thesis by blast
  qed
  with run over flag stop show ?thesis by blast
qed

text \<open>
  The theorem of C2 on an empty board of 2 by 2 cells and a footprint of one tile above
  the board: the call returns true, and the grid has the flag set and nothing else
  changed.
\<close>

theorem update_grid_game_over_witness:
  "shape_ok (GameGrid_init 2 2) \<and> 0 < grid_height (GameGrid_init 2 2) \<and>
   0 < grid_width (GameGrid_init 2 2) \<and>
   has_shape [[Some \<lparr>number = 2\<rparr>]] 1 1 \<and> (0::nat) < 1 \<and>
   update_grid (GameGrid_init 2 2) [[Some \<lparr>number = 2\<rparr>]] \<lparr>point_x = 0, point_y = 2\<rparr> =
     Some (Some ((GameGrid_init 2 2)\<lparr>game_over := True\<rparr>, True))"
proof -
  have h1: "shape_ok (GameGrid_init 2 2)"
    by (simp add: shape_ok_def GameGrid_init_def np_full_def has_shape_replicate)
  have h2: "0 < grid_height (GameGrid_init 2 2)" by (simp add: GameGrid_init_def)
  have h3: "0 < grid_width (GameGrid_init 2 2)" by (simp add: GameGrid_init_def)
  have h4: "has_shape [[Some \<lparr>number = 2\<rparr>]] 1 1" by (simp add: has_shape_def)
  have h5: "(0::nat) < 1" by simp
  have run: "update_grid (GameGrid_init 2 2) [[Some \<lparr>number = 2\<rparr>]] \<lparr>point_x = 0, point_y = 2\<rparr> =
     Some (Some ((GameGrid_init 2 2)\<lparr>game_over := True\<rparr>, True))"
    by code_simp
  from update_grid_game_over [OF h1 h2 h3 h4 h5, of "\<lparr>point_x = 0, point_y = 2\<rparr>"]
    run h1 h2 h3 h4 show ?thesis by simp
qed

text \<open>
  Claim C2 as stated fails on a grid whose flag \<open>game_over\<close> is already set (as a call
  that overflowed leaves it): the one tile of the footprint maps inside the grid, and
  the call places it and returns true.
\<close>

theorem update_grid_sticky_flag_counterexample:
  "update_grid ((GameGrid_init 2 2)\<lparr>game_over := True\<rparr>) [[Some \<lparr>number = 2\<rparr>]]
       \<lparr>point_x = 0, point_y = 0\<rparr> =
     Some (Some (\<lparr>grid_height = 2, grid_width = 2,
                   tile_matrix = [[Some \<lparr>number = 2\<rparr>, None], [None, None]],
                   current_tetromino = None, game_over = True, score = 0\<rparr>, True)) \<and>
   footprint_positions [[Some \<lparr>number = 2\<rparr>]] \<lparr>point_x = 0, point_y = 0\<rparr> = [(0, 0)] \<and>
   is_inside ((GameGrid_init 2 2)\<lparr>game_over := True\<rparr>) 0 0"
  by code_simp

section \<open>Sequences of engine calls\<close>











end
